theory Spec2Isabelle
  imports Complex_Main "HOL-Library.AList" "HOL-Library.Sublist"
begin

section \<open>JSON documents and the Python operations the scripts apply to them\<close>

text \<open>
  Both scripts pass around what \<^verbatim>\<open>json.load\<close> and \<^verbatim>\<open>response.json()\<close> return: Python
  values built from \<^verbatim>\<open>None\<close>, booleans, integers, floats, strings, lists and dictionaries
  with string keys. A dictionary is an association list in insertion order, as a Python
  \<^verbatim>\<open>dict\<close> keeps it; the keys of a decoded dictionary are distinct. A finite float is the
  rational it denotes.
\<close>

datatype pyfloat = Finite rat | NaN | PosInf | NegInf

datatype json =
    JNull
  | JBool bool
  | JInt int
  | JFloat pyfloat
  | JStr string
  | JArr "json list"
  | JObj "(string \<times> json) list"

text \<open>The exceptions that the modelled operations raise.\<close>

datatype error =
    TypeError
  | KeyError
  | NameError
  | AttributeError
  | ValueError
  | JSONDecodeError
  | UnicodeEncodeError
  | OSError

text \<open>\<^verbatim>\<open>key in x\<close> for a string \<^verbatim>\<open>key\<close>: membership among the keys of a dictionary, among
  the elements of a list, substring test on a string, \<^verbatim>\<open>TypeError\<close> on anything else.\<close>

fun py_contains :: "string \<Rightarrow> json \<Rightarrow> error + bool" where
  "py_contains k (JObj kvs) = Inr (k \<in> set (map fst kvs))"
| "py_contains k (JArr xs) = Inr (JStr k \<in> set xs)"
| "py_contains k (JStr s) = Inr (sublist k s)"
| "py_contains k JNull = Inl TypeError"
| "py_contains k (JBool b) = Inl TypeError"
| "py_contains k (JInt i) = Inl TypeError"
| "py_contains k (JFloat f) = Inl TypeError"

text \<open>\<^verbatim>\<open>x[key]\<close> for a string \<^verbatim>\<open>key\<close>: only a dictionary can be indexed by a string.\<close>

fun py_getitem :: "json \<Rightarrow> string \<Rightarrow> error + json" where
  "py_getitem (JObj kvs) k = (case map_of kvs k of None \<Rightarrow> Inl KeyError | Some v \<Rightarrow> Inr v)"
| "py_getitem JNull k = Inl TypeError"
| "py_getitem (JBool b) k = Inl TypeError"
| "py_getitem (JInt i) k = Inl TypeError"
| "py_getitem (JFloat f) k = Inl TypeError"
| "py_getitem (JStr s) k = Inl TypeError"
| "py_getitem (JArr xs) k = Inl TypeError"

text \<open>\<^verbatim>\<open>x[key] = v\<close> for a string \<^verbatim>\<open>key\<close>: a present key keeps its position, a new key
  goes to the end.\<close>

fun py_setitem :: "json \<Rightarrow> string \<Rightarrow> json \<Rightarrow> error + json" where
  "py_setitem (JObj kvs) k v = Inr (JObj (AList.update k v kvs))"
| "py_setitem JNull k v = Inl TypeError"
| "py_setitem (JBool b) k v = Inl TypeError"
| "py_setitem (JInt i) k v = Inl TypeError"
| "py_setitem (JFloat f) k v = Inl TypeError"
| "py_setitem (JStr s) k v = Inl TypeError"
| "py_setitem (JArr xs) k v = Inl TypeError"

text \<open>Whether a value is a dictionary.\<close>

fun is_dict :: "json \<Rightarrow> bool" where
  "is_dict (JObj kvs) = True"
| "is_dict JNull = False"
| "is_dict (JBool b) = False"
| "is_dict (JInt i) = False"
| "is_dict (JFloat f) = False"
| "is_dict (JStr s) = False"
| "is_dict (JArr xs) = False"

text \<open>\<^verbatim>\<open>save_data(data, filename)\<close> (the same function in both scripts): the file system is
  the list of files written so far, oldest first, each with the document dumped into it.
  Creating the directory and failures of the file system itself are not modelled. The text
  that \<^verbatim>\<open>json.dump\<close> writes and its encoding are the subject of a section of their own
  below.\<close>

type_synonym files = "(string \<times> json) list"

definition save_data :: "json \<Rightarrow> string \<Rightarrow> files \<Rightarrow> files" where
  "save_data data filename fs = fs @ [(''data/raw/'' @ filename, data)]"


section \<open>The merger: \<^verbatim>\<open>write_to_all.py\<close>\<close>

definition KEYS :: "string list" where
  "KEYS = [''pandas-dev/pandas'', ''numpy/numpy'', ''scikit-learn/scikit-learn'',
           ''apache/airflow'', ''mlflow/mlflow'']"

text \<open>The statement \<^verbatim>\<open>data[key]['repository'] = key\<close>. The nested dictionary is changed in
  place; a decoded document shares no structure, so the change is visible exactly at
  \<^verbatim>\<open>data[key]\<close>, which the last line writes back.\<close>

definition stamp :: "json \<Rightarrow> string \<Rightarrow> error + json" where
  "stamp data key =
     (case py_getitem data key of
        Inl e \<Rightarrow> Inl e
      | Inr inner \<Rightarrow>
          (case py_setitem inner ''repository'' (JStr key) of
             Inl e \<Rightarrow> Inl e
           | Inr inner' \<Rightarrow> py_setitem data key inner'))"

text \<open>The loop \<^verbatim>\<open>for key in KEYS: if key in data: data[key]['repository'] = key\<close>. The state is
  the loop variable \<^verbatim>\<open>key\<close> (unbound before the first round) and the document; the loop
  variable outlives the loop.\<close>

fun for_keys :: "string list \<Rightarrow> string option \<times> json \<Rightarrow> error + (string option \<times> json)" where
  "for_keys [] (key, data) = Inr (key, data)"
| "for_keys (k # ks) (key, data) =
     (case py_contains k data of
        Inl e \<Rightarrow> Inl e
      | Inr False \<Rightarrow> for_keys ks (Some k, data)
      | Inr True \<Rightarrow>
          (case stamp data k of
             Inl e \<Rightarrow> Inl e
           | Inr data' \<Rightarrow> for_keys ks (Some k, data')))"

text \<open>The body of the \<^verbatim>\<open>try\<close> block for one file, given what opening and decoding the file
  gives (an exception or the document). It ends with the assignment
  \<^verbatim>\<open>combined_data[key] = data\<close>, which stands after the loop over \<^verbatim>\<open>KEYS\<close>: the result is the
  key and the value of that assignment. Every exception is caught by the caller, so the
  binding that \<^verbatim>\<open>key\<close> had when a round raised is never read: the next file's loop binds it
  anew before the next assignment.\<close>

definition load_file :: "error + json \<Rightarrow> error + (string \<times> json)" where
  "load_file content =
     (case content of
        Inl e \<Rightarrow> Inl e
      | Inr data \<Rightarrow>
          (case for_keys KEYS (None, data) of
             Inl e \<Rightarrow> Inl e
           | Inr (None, data') \<Rightarrow> Inl NameError
           | Inr (Some key, data') \<Rightarrow> Inr (key, data')))"

text \<open>The loop over the files found: a file whose block raises is reported and skipped.\<close>

fun combine :: "(string \<times> (error + json)) list \<Rightarrow> (string \<times> json) list \<Rightarrow> (string \<times> json) list" where
  "combine [] combined_data = combined_data"
| "combine (json_file # rest) combined_data =
     (case load_file (snd json_file) of
        Inl e \<Rightarrow> combine rest combined_data
      | Inr (key, data) \<Rightarrow> combine rest (AList.update key data combined_data))"

text \<open>\<^verbatim>\<open>main\<close> of the merger, from whether \<^verbatim>\<open>data/raw\<close> exists, the files the glob finds (name
  and what reading gives) and the time stamp taken when the module was loaded, to the files
  written.\<close>

definition merger_main :: "bool \<Rightarrow> (string \<times> (error + json)) list \<Rightarrow> string \<Rightarrow> files" where
  "merger_main dir_exists json_files timestamp =
     (if \<not> dir_exists then []
      else if json_files = [] then []
      else save_data (JObj (combine json_files [])) (''combined_data_'' @ timestamp @ ''.json'') [])"

text \<open>What the stamping does to the value under an identifier: a dictionary gets the
  identifier as its \<^verbatim>\<open>repository\<close>.\<close>

fun stamped :: "string \<Rightarrow> json \<Rightarrow> json" where
  "stamped k (JObj inner) = JObj (AList.update ''repository'' (JStr k) inner)"
| "stamped k JNull = JNull"
| "stamped k (JBool b) = JBool b"
| "stamped k (JInt i) = JInt i"
| "stamped k (JFloat f) = JFloat f"
| "stamped k (JStr s) = JStr s"
| "stamped k (JArr xs) = JArr xs"

text \<open>The documents of the files whose block ran to its end, in the order processed.\<close>

fun loaded :: "(string \<times> (error + json)) list \<Rightarrow> json list" where
  "loaded [] = []"
| "loaded (json_file # rest) =
     (case load_file (snd json_file) of
        Inl e \<Rightarrow> loaded rest
      | Inr (key, data) \<Rightarrow> data # loaded rest)"


text \<open>The document that a file contributes, stated on the document read and not through the
  loop. Under each of the identifiers \<open>ks\<close>, a dictionary gets its stamp (\<open>restamp\<close>); the
  block runs to its end when every identifier present in a dictionary holds a dictionary,
  when no identifier is an element of a list, and when no identifier occurs in a string
  (\<open>loadable\<close>); \<^verbatim>\<open>json.load\<close> gives dictionaries with distinct keys (\<open>decoded\<close>). The documents
  stored, file by file, are the stamped documents of the loadable files.\<close>

definition restamp :: "string list \<Rightarrow> string \<times> json \<Rightarrow> string \<times> json" where
  "restamp ks kv = (if fst kv \<in> set ks then (fst kv, stamped (fst kv) (snd kv)) else kv)"

definition stampable :: "string list \<Rightarrow> string \<times> json \<Rightarrow> bool" where
  "stampable ks kv = (if fst kv \<in> set ks then is_dict (snd kv) else True)"

fun loadable :: "json \<Rightarrow> bool" where
  "loadable (JObj kvs) = list_all (stampable KEYS) kvs"
| "loadable (JArr xs) = list_all (\<lambda>k. JStr k \<notin> set xs) KEYS"
| "loadable (JStr s) = list_all (\<lambda>k. \<not> sublist k s) KEYS"
| "loadable JNull = False"
| "loadable (JBool b) = False"
| "loadable (JInt i) = False"
| "loadable (JFloat f) = False"

fun stamped_document :: "json \<Rightarrow> json" where
  "stamped_document (JObj kvs) = JObj (map (restamp KEYS) kvs)"
| "stamped_document (JArr xs) = JArr xs"
| "stamped_document (JStr s) = JStr s"
| "stamped_document JNull = JNull"
| "stamped_document (JBool b) = JBool b"
| "stamped_document (JInt i) = JInt i"
| "stamped_document (JFloat f) = JFloat f"

fun distinct_keys :: "json \<Rightarrow> bool" where
  "distinct_keys (JObj kvs) = distinct (map fst kvs)"
| "distinct_keys (JArr xs) = True"
| "distinct_keys (JStr s) = True"
| "distinct_keys JNull = True"
| "distinct_keys (JBool b) = True"
| "distinct_keys (JInt i) = True"
| "distinct_keys (JFloat f) = True"

fun stored_documents :: "(string \<times> (error + json)) list \<Rightarrow> json list" where
  "stored_documents [] = []"
| "stored_documents (json_file # rest) =
     (case snd json_file of
        Inl e \<Rightarrow> stored_documents rest
      | Inr data \<Rightarrow>
          (if loadable data then stamped_document data # stored_documents rest
           else stored_documents rest))"

definition decoded :: "string \<times> (error + json) \<Rightarrow> bool" where
  "decoded json_file = (case snd json_file of Inl e \<Rightarrow> True | Inr data \<Rightarrow> distinct_keys data)"

text \<open>Four files: two sets of snapshots, an unreadable file, and a file that decodes but
  holds a number under an identifier.\<close>

definition sample_files :: "(string \<times> (error + json)) list" where
  "sample_files =
     [(''a.json'', Inr (JObj [(''pandas-dev/pandas'', JObj [(''repository'', JStr ''old'')]),
                              (''extra'', JInt 1)])),
      (''b.json'', Inr (JObj [(''numpy/numpy'', JObj [(''repository'', JStr ''old''),
                                                      (''stars'', JInt 2)]),
                              (''note'', JStr ''kept'')])),
      (''c.json'', Inl JSONDecodeError),
      (''d.json'', Inr (JObj [(''numpy/numpy'', JInt 5)]))]"


section \<open>The collector: \<^verbatim>\<open>api_fetch.py\<close>\<close>

subsection \<open>Responses and the Python operations on decoded bodies\<close>

text \<open>What \<^verbatim>\<open>requests.get\<close> returns, as far as the script reads it: the status code and the
  body, which \<^verbatim>\<open>response.json()\<close> decodes or, when the body is no JSON text, refuses with
  an exception. A request that gets no response at all (the network is down) raises inside
  \<^verbatim>\<open>requests.get\<close> and is outside the model. What the script prints is not modelled; the
  expressions it evaluates in order to print are, since they can raise.\<close>

record response =
  status_code :: int
  body :: "json option"

definition response_json :: "response \<Rightarrow> error + json" where
  "response_json response =
     (case body response of None \<Rightarrow> Inl JSONDecodeError | Some j \<Rightarrow> Inr j)"

text \<open>Truth value, \<^verbatim>\<open>len\<close> and iteration of a decoded value.\<close>

fun py_truthy :: "json \<Rightarrow> bool" where
  "py_truthy JNull = False"
| "py_truthy (JBool b) = b"
| "py_truthy (JInt i) = (i \<noteq> 0)"
| "py_truthy (JFloat f) = (f \<noteq> Finite 0)"
| "py_truthy (JStr s) = (s \<noteq> [])"
| "py_truthy (JArr xs) = (xs \<noteq> [])"
| "py_truthy (JObj kvs) = (kvs \<noteq> [])"

fun py_len :: "json \<Rightarrow> error + nat" where
  "py_len (JStr s) = Inr (length s)"
| "py_len (JArr xs) = Inr (length xs)"
| "py_len (JObj kvs) = Inr (length kvs)"
| "py_len JNull = Inl TypeError"
| "py_len (JBool b) = Inl TypeError"
| "py_len (JInt i) = Inl TypeError"
| "py_len (JFloat f) = Inl TypeError"

fun py_iter :: "json \<Rightarrow> error + json list" where
  "py_iter (JArr xs) = Inr xs"
| "py_iter (JObj kvs) = Inr (map (\<lambda>kv. JStr (fst kv)) kvs)"
| "py_iter (JStr s) = Inr (map (\<lambda>c. JStr [c]) s)"
| "py_iter JNull = Inl TypeError"
| "py_iter (JBool b) = Inl TypeError"
| "py_iter (JInt i) = Inl TypeError"
| "py_iter (JFloat f) = Inl TypeError"

text \<open>The slice \<^verbatim>\<open>xs[:n]\<close>; a negative \<^verbatim>\<open>n\<close> counts from the end.\<close>

definition py_slice_to :: "'a list \<Rightarrow> int \<Rightarrow> 'a list" where
  "py_slice_to xs n = (if 0 \<le> n then take (nat n) xs else take (length xs - nat (- n)) xs)"

text \<open>The comparison \<^verbatim>\<open>x < n\<close> of a decoded value with an integer literal.\<close>

fun py_less :: "json \<Rightarrow> int \<Rightarrow> error + bool" where
  "py_less (JInt i) n = Inr (i < n)"
| "py_less (JBool b) n = Inr ((if b then 1 else 0) < n)"
| "py_less (JFloat (Finite q)) n = Inr (q < of_int n)"
| "py_less (JFloat NaN) n = Inr False"
| "py_less (JFloat PosInf) n = Inr False"
| "py_less (JFloat NegInf) n = Inr True"
| "py_less JNull n = Inl TypeError"
| "py_less (JStr s) n = Inl TypeError"
| "py_less (JArr xs) n = Inl TypeError"
| "py_less (JObj kvs) n = Inl TypeError"

definition REPOSITORIES :: "string list" where
  "REPOSITORIES = [''pandas-dev/pandas'', ''numpy/numpy'', ''scikit-learn/scikit-learn'',
                   ''apache/airflow'', ''mlflow/mlflow'']"

subsection \<open>\<^verbatim>\<open>check_rate_limit\<close>\<close>

text \<open>From the response to the request for \<^verbatim>\<open>/rate_limit\<close>. \<^verbatim>\<open>datetime.fromtimestamp\<close> is a
  parameter: it says which exception, if any, the library raises on the value of
  \<^verbatim>\<open>core['reset']\<close>. The two \<^verbatim>\<open>print\<close> statements read \<^verbatim>\<open>remaining\<close>, \<^verbatim>\<open>limit\<close> and
  \<^verbatim>\<open>reset\<close> in this order.\<close>

definition check_rate_limit :: "(json \<Rightarrow> error option) \<Rightarrow> response \<Rightarrow> error + json" where
  "check_rate_limit fromtimestamp response =
     (if status_code response = 200 then
        (case response_json response of
           Inl e \<Rightarrow> Inl e
         | Inr data \<Rightarrow>
         (case py_getitem data ''resources'' of
           Inl e \<Rightarrow> Inl e
         | Inr resources \<Rightarrow>
         (case py_getitem resources ''core'' of
           Inl e \<Rightarrow> Inl e
         | Inr core \<Rightarrow>
         (case py_getitem core ''remaining'' of
           Inl e \<Rightarrow> Inl e
         | Inr remaining \<Rightarrow>
         (case py_getitem core ''limit'' of
           Inl e \<Rightarrow> Inl e
         | Inr limit \<Rightarrow>
         (case py_getitem core ''reset'' of
           Inl e \<Rightarrow> Inl e
         | Inr reset \<Rightarrow>
         (case fromtimestamp reset of
           Some e \<Rightarrow> Inl e
         | None \<Rightarrow> py_getitem core ''remaining'')))))))
      else Inr (JInt 0))"

subsection \<open>\<^verbatim>\<open>fetch_issues\<close> and \<^verbatim>\<open>fetch_commits\<close>\<close>

text \<open>The state of a loop after one round of its body: the round ended in \<^verbatim>\<open>break\<close>, ran to
  its end (the loop tests its condition again), or raised.\<close>

datatype 'a flow = Break 'a | Continue 'a | Raise error

definition per_page :: int where
  "per_page = 100"

text \<open>The test \<^verbatim>\<open>not batch or len(batch) == 0\<close>.\<close>

definition batch_empty :: "json \<Rightarrow> error + bool" where
  "batch_empty batch =
     (if \<not> py_truthy batch then Inr True
      else (case py_len batch of Inl e \<Rightarrow> Inl e | Inr n \<Rightarrow> Inr (n = 0)))"

text \<open>The comprehension \<^verbatim>\<open>[issue for issue in batch if 'pull_request' not in issue]\<close>.\<close>

fun keep_issues :: "json list \<Rightarrow> error + json list" where
  "keep_issues [] = Inr []"
| "keep_issues (issue # rest) =
     (case py_contains ''pull_request'' issue of
        Inl e \<Rightarrow> Inl e
      | Inr is_pr \<Rightarrow>
          (case keep_issues rest of
             Inl e \<Rightarrow> Inl e
           | Inr kept \<Rightarrow> Inr (if is_pr then kept else issue # kept)))"

definition actual_issues :: "json \<Rightarrow> error + json list" where
  "actual_issues batch =
     (case py_iter batch of Inl e \<Rightarrow> Inl e | Inr items \<Rightarrow> keep_issues items)"

text \<open>The expression \<^verbatim>\<open>response.json().get('message', 'Unknown error')\<close> that the error
  branch prints: only a dictionary has \<^verbatim>\<open>get\<close>.\<close>

definition error_message :: "response \<Rightarrow> error + json" where
  "error_message response =
     (case response_json response of
        Inl e \<Rightarrow> Inl e
      | Inr (JObj kvs) \<Rightarrow>
          Inr (case map_of kvs ''message'' of None \<Rightarrow> JStr ''Unknown error'' | Some m \<Rightarrow> m)
      | Inr JNull \<Rightarrow> Inl AttributeError
      | Inr (JBool b) \<Rightarrow> Inl AttributeError
      | Inr (JInt i) \<Rightarrow> Inl AttributeError
      | Inr (JFloat f) \<Rightarrow> Inl AttributeError
      | Inr (JStr s) \<Rightarrow> Inl AttributeError
      | Inr (JArr xs) \<Rightarrow> Inl AttributeError)"

text \<open>One round of the loop of \<^verbatim>\<open>fetch_issues\<close>, from the response to the request for the
  current page. The pause \<^verbatim>\<open>time.sleep(0.5)\<close> at the end of a round is not modelled.\<close>

definition issues_body :: "response \<Rightarrow> int \<Rightarrow> json list \<Rightarrow> json list flow" where
  "issues_body response max_issues issues =
     (if status_code response = 200 then
        (case response_json response of
           Inl e \<Rightarrow> Raise e
         | Inr batch \<Rightarrow>
             (case batch_empty batch of
                Inl e \<Rightarrow> Raise e
              | Inr True \<Rightarrow> Break issues
              | Inr False \<Rightarrow>
                  (case actual_issues batch of
                     Inl e \<Rightarrow> Raise e
                   | Inr actual \<Rightarrow>
                       (if max_issues \<le> int (length (issues @ actual))
                        then Break (issues @ actual)
                        else Continue (issues @ actual)))))
      else
        (case error_message response of
           Inl e \<Rightarrow> Raise e
         | Inr message \<Rightarrow> Break issues))"

text \<open>The loop \<^verbatim>\<open>while len(issues) < max_issues\<close> and the \<^verbatim>\<open>return\<close> after it. \<^verbatim>\<open>get\<close> answers
  the request for a page of the repository; the result is what the call returns or raises,
  with the pages requested, in order. The loop need not end: then the value is \<open>None\<close>.\<close>

partial_function (option) issues_loop ::
  "(nat \<Rightarrow> response) \<Rightarrow> int \<Rightarrow> json list \<Rightarrow> nat \<Rightarrow> nat list \<Rightarrow>
   ((error + json list) \<times> nat list) option"
where
  "issues_loop get max_issues issues page requested =
     (if int (length issues) < max_issues then
        (case issues_body (get page) max_issues issues of
           Raise e \<Rightarrow> Some (Inl e, requested @ [page])
         | Break issues' \<Rightarrow> Some (Inr (py_slice_to issues' max_issues), requested @ [page])
         | Continue issues' \<Rightarrow>
             issues_loop get max_issues issues' (page + 1) (requested @ [page]))
      else Some (Inr (py_slice_to issues max_issues), requested))"

declare issues_loop.simps [code]

definition fetch_issues ::
  "(string \<Rightarrow> nat \<Rightarrow> response) \<Rightarrow> string \<Rightarrow> int \<Rightarrow> ((error + json list) \<times> nat list) option" where
  "fetch_issues issues_endpoint repo max_issues =
     issues_loop (issues_endpoint repo) max_issues [] 1 []"

text \<open>One round of the loop of \<^verbatim>\<open>fetch_commits\<close>: \<^verbatim>\<open>commits.extend(batch)\<close> iterates over the
  batch, and a batch shorter than \<^verbatim>\<open>per_page\<close> ends the loop.\<close>

definition commits_body :: "response \<Rightarrow> json list \<Rightarrow> json list flow" where
  "commits_body response commits =
     (if status_code response = 200 then
        (case response_json response of
           Inl e \<Rightarrow> Raise e
         | Inr batch \<Rightarrow>
             (case batch_empty batch of
                Inl e \<Rightarrow> Raise e
              | Inr True \<Rightarrow> Break commits
              | Inr False \<Rightarrow>
                  (case py_iter batch of
                     Inl e \<Rightarrow> Raise e
                   | Inr items \<Rightarrow>
                       (case py_len batch of
                          Inl e \<Rightarrow> Raise e
                        | Inr n \<Rightarrow>
                            (if int n < per_page
                             then Break (commits @ items)
                             else Continue (commits @ items))))))
      else
        (case error_message response of
           Inl e \<Rightarrow> Raise e
         | Inr message \<Rightarrow> Break commits))"

partial_function (option) commits_loop ::
  "(nat \<Rightarrow> response) \<Rightarrow> int \<Rightarrow> json list \<Rightarrow> nat \<Rightarrow> nat list \<Rightarrow>
   ((error + json list) \<times> nat list) option"
where
  "commits_loop get max_commits commits page requested =
     (if int (length commits) < max_commits then
        (case commits_body (get page) commits of
           Raise e \<Rightarrow> Some (Inl e, requested @ [page])
         | Break commits' \<Rightarrow> Some (Inr (py_slice_to commits' max_commits), requested @ [page])
         | Continue commits' \<Rightarrow>
             commits_loop get max_commits commits' (page + 1) (requested @ [page]))
      else Some (Inr (py_slice_to commits max_commits), requested))"

declare commits_loop.simps [code]

definition fetch_commits ::
  "(string \<Rightarrow> nat \<Rightarrow> response) \<Rightarrow> string \<Rightarrow> int \<Rightarrow> ((error + json list) \<times> nat list) option" where
  "fetch_commits commits_endpoint repo max_commits =
     commits_loop (commits_endpoint repo) max_commits [] 1 []"

subsection \<open>\<^verbatim>\<open>fetch_repo_info\<close>\<close>

definition fetch_repo_info :: "response \<Rightarrow> error + json" where
  "fetch_repo_info response =
     (if status_code response = 200 then response_json response else Inr JNull)"

subsection \<open>\<^verbatim>\<open>main\<close>\<close>

text \<open>What a run of the collector meets: the answers to its requests (the \<open>k\<close>-th request
  for \<^verbatim>\<open>/rate_limit\<close>, counted from 0; the metadata, the issue pages and the commit pages of
  each repository), the library function \<^verbatim>\<open>datetime.fromtimestamp\<close>, and the clock: the time
  stamp of the run and the time at which each repository's turn starts.\<close>

record env =
  get_rate_limit :: "nat \<Rightarrow> response"
  get_repo_info :: "string \<Rightarrow> response"
  get_issues :: "string \<Rightarrow> nat \<Rightarrow> response"
  get_commits :: "string \<Rightarrow> nat \<Rightarrow> response"
  datetime_fromtimestamp :: "json \<Rightarrow> error option"
  run_timestamp :: string
  isoformat_now :: "string \<Rightarrow> string"

text \<open>\<^verbatim>\<open>repo.replace('/', '_')\<close>.\<close>

definition repo_name :: "string \<Rightarrow> string" where
  "repo_name repo = map (\<lambda>c. if c = CHR ''/'' then CHR ''_'' else c) repo"

text \<open>The dictionary \<^verbatim>\<open>repo_data\<close> after its three assignments: the literal fixes the order
  of the keys.\<close>

definition snapshot :: "string \<Rightarrow> string \<Rightarrow> json \<Rightarrow> json list \<Rightarrow> json list \<Rightarrow> json" where
  "snapshot repo collected_at info issues commits =
     JObj (AList.update ''commits'' (JArr commits)
          (AList.update ''issues'' (JArr issues)
          (AList.update ''info'' info
            [(''repository'', JStr repo), (''collected at'', JStr collected_at),
             (''info'', JNull), (''issues'', JArr []), (''commits'', JArr [])])))"

text \<open>The state of \<^verbatim>\<open>main\<close> in its loop: \<^verbatim>\<open>all_data\<close>, the files written, and how many
  rate-limit requests have been made.\<close>

record run =
  all_data :: "(string \<times> json) list"
  written :: files
  checks :: nat

text \<open>The loop \<^verbatim>\<open>for repo in REPOSITORIES\<close>, from the repositories still to come. A fetch
  that does not return leaves the run without a result; an exception leaves the loop with
  the files written so far.\<close>

fun collect :: "env \<Rightarrow> string list \<Rightarrow> run \<Rightarrow> (error option \<times> run) option" where
  "collect env [] st = Some (None, st)"
| "collect env (repo # rest) st =
     (case fetch_repo_info (get_repo_info env repo) of
        Inl e \<Rightarrow> Some (Some e, st)
      | Inr info \<Rightarrow>
     (case fetch_issues (get_issues env) repo 100 of
        None \<Rightarrow> None
      | Some (Inl e, requested) \<Rightarrow> Some (Some e, st)
      | Some (Inr issues, requested) \<Rightarrow>
     (case fetch_commits (get_commits env) repo 100 of
        None \<Rightarrow> None
      | Some (Inl e, requested) \<Rightarrow> Some (Some e, st)
      | Some (Inr commits, requested) \<Rightarrow>
         (let repo_data = snapshot repo (isoformat_now env repo) info issues commits;
              st' = \<lparr>all_data = AList.update repo repo_data (all_data st),
                     written = save_data repo_data
                       (repo_name repo @ ''_'' @ run_timestamp env @ ''.json'') (written st),
                     checks = checks st + 1\<rparr>
          in (case check_rate_limit (datetime_fromtimestamp env) (get_rate_limit env (checks st)) of
                Inl e \<Rightarrow> Some (Some e, st')
              | Inr remaining \<Rightarrow>
                  (case py_less remaining 50 of
                     Inl e \<Rightarrow> Some (Some e, st')
                   | Inr True \<Rightarrow> Some (None, st')
                   | Inr False \<Rightarrow> collect env rest st'))))))"

text \<open>\<^verbatim>\<open>main\<close>: the exception that escaped, if any, and the files written. The summary
  printed at the end writes no file and reads only what the loop stored.\<close>

definition collector_main :: "env \<Rightarrow> (error option \<times> files) option" where
  "collector_main env =
     (case check_rate_limit (datetime_fromtimestamp env) (get_rate_limit env 0) of
        Inl e \<Rightarrow> Some (Some e, [])
      | Inr remainig \<Rightarrow>
          (case py_less remainig 100 of
             Inl e \<Rightarrow> Some (Some e, [])
           | Inr True \<Rightarrow> Some (None, [])
           | Inr False \<Rightarrow>
               (case collect env REPOSITORIES \<lparr>all_data = [], written = [], checks = 1\<rparr> of
                  None \<Rightarrow> None
                | Some (Some e, st) \<Rightarrow> Some (Some e, written st)
                | Some (None, st) \<Rightarrow>
                    Some (None, save_data (JObj (all_data st))
                                  (''all_repos_'' @ run_timestamp env @ ''.json'') (written st)))))"

text \<open>The module itself: without a token in the environment it raises before \<^verbatim>\<open>main\<close> is
  called.\<close>

definition api_fetch :: "string option \<Rightarrow> env \<Rightarrow> (error option \<times> files) option" where
  "api_fetch GITHUB_TOKEN env =
     (case GITHUB_TOKEN of
        None \<Rightarrow> Some (Some ValueError, [])
      | Some token \<Rightarrow> if token = [] then Some (Some ValueError, []) else collector_main env)"

subsection \<open>Vocabulary of the properties\<close>

text \<open>A successful page of items, and whether an item carries a given key.\<close>

definition page_of :: "json list \<Rightarrow> response" where
  "page_of items = \<lparr>status_code = 200, body = Some (JArr items)\<rparr>"

fun has_key :: "string \<Rightarrow> json \<Rightarrow> bool" where
  "has_key k (JObj kvs) = (k \<in> set (map fst kvs))"
| "has_key k JNull = False"
| "has_key k (JBool b) = False"
| "has_key k (JInt i) = False"
| "has_key k (JFloat f) = False"
| "has_key k (JStr s) = False"
| "has_key k (JArr xs) = False"

definition no_pull_request :: "json \<Rightarrow> bool" where
  "no_pull_request issue = (\<not> has_key ''pull_request'' issue)"

text \<open>A response that ends the pagination whatever has been collected: a status other than
  200, a body that does not decode, or a decoded body that is empty.\<close>

definition ends_pagination :: "response \<Rightarrow> bool" where
  "ends_pagination response =
     (status_code response \<noteq> 200 \<or>
      (case body response of None \<Rightarrow> True | Some batch \<Rightarrow> \<not> py_truthy batch))"

text \<open>What a call of \<^verbatim>\<open>fetch_issues\<close> promises of its result, given what the loop has
  collected so far: at most the cap, and no pull request.\<close>

definition issues_post :: "int \<Rightarrow> json list \<Rightarrow> (error + json list) \<times> nat list \<Rightarrow> bool" where
  "issues_post max_issues issues result =
     ((max_issues \<le> 0 \<longrightarrow> issues = []) \<longrightarrow> (\<forall>x\<in>set issues. no_pull_request x) \<longrightarrow>
      (case fst result of
         Inl e \<Rightarrow> True
       | Inr xs \<Rightarrow> length xs \<le> nat max_issues \<and> (\<forall>x\<in>set xs. no_pull_request x)))"

text \<open>A response that reports an error the way the API does: a status other than 200 with
  a dictionary as body.\<close>

definition reports_error :: "response \<Rightarrow> bool" where
  "reports_error response =
     (status_code response \<noteq> 200 \<and>
      (case body response of Some data \<Rightarrow> is_dict data | None \<Rightarrow> False))"

text \<open>The pages that \<^verbatim>\<open>fetch_commits\<close> reads of a sequence of pages: up to and including the
  first one shorter than \<^verbatim>\<open>per_page\<close>.\<close>

fun until_short :: "json list list \<Rightarrow> json list list" where
  "until_short [] = []"
| "until_short (batch # rest) =
     (if int (length batch) < per_page then [batch] else batch # until_short rest)"

text \<open>The document that the API sends for \<^verbatim>\<open>/rate_limit\<close>, reduced to the part that
  \<^verbatim>\<open>check_rate_limit\<close> reads.\<close>

definition rate_limit_response :: "nat \<Rightarrow> int \<Rightarrow> int \<Rightarrow> response" where
  "rate_limit_response remaining limit reset =
     \<lparr>status_code = 200,
      body = Some (JObj [(''resources'', JObj [(''core'',
               JObj [(''limit'', JInt limit), (''remaining'', JInt (int remaining)),
                     (''reset'', JInt reset)])])])\<rparr>"

text \<open>For a run of \<^verbatim>\<open>main\<close>: whether the \<open>k\<close>-th rate-limit check reports less than a
  threshold; the snapshot of a repository, when its three fetches return; the names of the
  files; the state after a repository has been stored; and a run in which every fetch
  returns and every check after a repository gives a comparable value.\<close>

definition rate_below :: "env \<Rightarrow> nat \<Rightarrow> int \<Rightarrow> error + bool" where
  "rate_below env k n =
     (case check_rate_limit (datetime_fromtimestamp env) (get_rate_limit env k) of
        Inl e \<Rightarrow> Inl e
      | Inr remaining \<Rightarrow> py_less remaining n)"

definition repo_doc :: "env \<Rightarrow> string \<Rightarrow> json option" where
  "repo_doc env repo =
     (case fetch_repo_info (get_repo_info env repo) of
        Inl e \<Rightarrow> None
      | Inr info \<Rightarrow>
     (case fetch_issues (get_issues env) repo 100 of
        None \<Rightarrow> None
      | Some (Inl e, requested) \<Rightarrow> None
      | Some (Inr issues, requested) \<Rightarrow>
     (case fetch_commits (get_commits env) repo 100 of
        None \<Rightarrow> None
      | Some (Inl e, requested) \<Rightarrow> None
      | Some (Inr commits, requested) \<Rightarrow>
          Some (snapshot repo (isoformat_now env repo) info issues commits))))"

definition repo_file :: "env \<Rightarrow> string \<Rightarrow> string" where
  "repo_file env repo = ''data/raw/'' @ repo_name repo @ ''_'' @ run_timestamp env @ ''.json''"

definition all_repos_file :: "env \<Rightarrow> string" where
  "all_repos_file env = ''data/raw/all_repos_'' @ run_timestamp env @ ''.json''"

definition after_repo :: "env \<Rightarrow> string \<Rightarrow> json \<Rightarrow> run \<Rightarrow> run" where
  "after_repo env repo doc st =
     \<lparr>all_data = AList.update repo doc (all_data st),
      written = written st @ [(repo_file env repo, doc)],
      checks = checks st + 1\<rparr>"

definition run_unhindered :: "env \<Rightarrow> bool" where
  "run_unhindered env =
     (list_all (\<lambda>repo. case repo_doc env repo of None \<Rightarrow> False | Some doc \<Rightarrow> True) REPOSITORIES \<and>
      list_all (\<lambda>k. case rate_below env k 50 of Inl e \<Rightarrow> False | Inr low \<Rightarrow> True)
        [1 ..< length REPOSITORIES + 1])"

subsection \<open>Simulated sources\<close>

text \<open>Issues: a page with two pull requests and one issue, a page with two issues, then
  empty pages.\<close>

definition sample_issues :: "string \<Rightarrow> nat \<Rightarrow> response" where
  "sample_issues repo page =
     (if page = 1 then
        page_of [JObj [(''number'', JInt 1), (''pull_request'', JObj [])],
                 JObj [(''number'', JInt 2)],
                 JObj [(''number'', JInt 3), (''pull_request'', JObj [])]]
      else if page = 2 then
        page_of [JObj [(''number'', JInt 4)], JObj [(''number'', JInt 5)]]
      else page_of [])"

text \<open>Commits: pages of two, one and no items.\<close>

definition sample_commits :: "string \<Rightarrow> nat \<Rightarrow> response" where
  "sample_commits repo page =
     (if page = 1 then page_of [JObj [(''sha'', JStr ''a1'')], JObj [(''sha'', JStr ''b2'')]]
      else if page = 2 then page_of [JObj [(''sha'', JStr ''c3'')]]
      else page_of [])"

text \<open>A source whose first page holds two items and whose second request is answered with
  status 500 and the API's error document.\<close>

definition sample_failing :: "string \<Rightarrow> nat \<Rightarrow> response" where
  "sample_failing repo page =
     (if page = 1 then page_of [JObj [(''number'', JInt 7)], JObj [(''number'', JInt 8)]]
      else \<lparr>status_code = 500, body = Some (JObj [(''message'', JStr ''Server Error'')])\<rparr>)"

text \<open>Sources whose second request fails without an error document: a gateway answers with
  status 502 and a page of HTML, after a first page of two issues or of 100 commits; or the
  body is a JSON list.\<close>

definition sample_gateway :: "string \<Rightarrow> nat \<Rightarrow> response" where
  "sample_gateway repo page =
     (if page = 1 then page_of [JObj [(''number'', JInt 7)], JObj [(''number'', JInt 8)]]
      else \<lparr>status_code = 502, body = None\<rparr>)"

definition sample_gateway_full :: "string \<Rightarrow> nat \<Rightarrow> response" where
  "sample_gateway_full repo page =
     (if page = 1 then page_of (replicate 100 (JObj [(''sha'', JStr ''f0'')]))
      else \<lparr>status_code = 502, body = None\<rparr>)"

definition sample_list_error :: "string \<Rightarrow> nat \<Rightarrow> response" where
  "sample_list_error repo page =
     (if page = 1 then page_of [JObj [(''number'', JInt 7)], JObj [(''number'', JInt 8)]]
      else \<lparr>status_code = 503, body = Some (JArr [JStr ''unavailable''])\<rparr>)"


text \<open>A source serves a sequence of non-empty pages, the first as page 1, and an empty
  page after the last.\<close>

definition serves :: "(string \<Rightarrow> nat \<Rightarrow> response) \<Rightarrow> string \<Rightarrow> json list list \<Rightarrow> bool" where
  "serves endpoint repo pages =
     (map (endpoint repo) [1 ..< length pages + 1] = map page_of pages \<and>
      endpoint repo (length pages + 1) = page_of [] \<and>
      list_all (\<lambda>batch. batch \<noteq> []) pages)"

text \<open>A run in which every repository has the same issues and commits, the pre-flight check
  reports 5000 remaining, the checks before the \<open>low\<close>-th report 1000 and the later ones 10;
  and the snapshot such a run takes of a repository.\<close>

definition sample_env :: "nat \<Rightarrow> env" where
  "sample_env low =
     \<lparr>get_rate_limit = (\<lambda>k. rate_limit_response (if k = 0 then 5000 else if k < low then 1000 else 10) 5000 1762214400),
      get_repo_info = (\<lambda>repo. \<lparr>status_code = 200, body = Some (JObj [(''full_name'', JStr repo)])\<rparr>),
      get_issues = sample_issues,
      get_commits = sample_commits,
      datetime_fromtimestamp = (\<lambda>t. None),
      run_timestamp = ''20261103_120000'',
      isoformat_now = (\<lambda>repo. ''2026-11-03T12:00:00'')\<rparr>"


definition sample_doc :: "string \<Rightarrow> json" where
  "sample_doc repo =
     JObj [(''repository'', JStr repo),
           (''collected at'', JStr ''2026-11-03T12:00:00''),
           (''info'', JObj [(''full_name'', JStr repo)]),
           (''issues'', JArr [JObj [(''number'', JInt 2)], JObj [(''number'', JInt 4)],
                              JObj [(''number'', JInt 5)]]),
           (''commits'', JArr [JObj [(''sha'', JStr ''a1'')], JObj [(''sha'', JStr ''b2'')]])]"


section \<open>The file that \<^verbatim>\<open>save_data\<close> writes\<close>

text \<open>
  \<^verbatim>\<open>save_data\<close> opens the file with \<^verbatim>\<open>encoding='utf-8'\<close> and calls
  \<^verbatim>\<open>json.dump(data, f, indent=2, ensure_ascii=False)\<close>. Here the text and the bytes are
  modelled, after the documentation of the library. A Python string is a sequence of code
  points, numbers below \<open>0x110000\<close>, the surrogates \<open>0xD800\<close> to \<open>0xDFFF\<close> among them: what
  \<^verbatim>\<open>response.json()\<close> makes of an escape such as \<^verbatim>\<open>\ud83d\<close> that stands alone.
\<close>

type_synonym unicode = "nat list"


datatype pyvalue =
    PNone
  | PBool bool
  | PInt int
  | PFloat pyfloat
  | PStr unicode
  | PList "pyvalue list"
  | PDict "(unicode \<times> pyvalue) list"

text \<open>A string of the sections above as a Python string: its characters are the code points
  below 256.\<close>

definition str :: "string \<Rightarrow> unicode" where
  "str s = map of_char s"

text \<open>\<^verbatim>\<open>int.__repr__\<close>: decimal digits, with a sign for a negative number.\<close>

fun digits :: "nat \<Rightarrow> unicode" where
  "digits n = (if n < 10 then [48 + n] else digits (n div 10) @ [48 + n mod 10])"

declare digits.simps [simp del]

definition int_repr :: "int \<Rightarrow> unicode" where
  "int_repr i = (if i < 0 then 45 # digits (nat (- i)) else digits (nat i))"

text \<open>A string between quotes. With \<^verbatim>\<open>ensure_ascii=False\<close> only the quote, the backslash and
  the control characters below \<open>0x20\<close> are escaped; every other code point is written as it
  is.\<close>

definition hex_digit :: "nat \<Rightarrow> nat" where
  "hex_digit d = (if d < 10 then 48 + d else 87 + d)"

definition escape_char :: "nat \<Rightarrow> unicode" where
  "escape_char c =
     (if c = 34 then [92, 34]
      else if c = 92 then [92, 92]
      else if c = 8 then [92, 98]
      else if c = 12 then [92, 102]
      else if c = 10 then [92, 110]
      else if c = 13 then [92, 114]
      else if c = 9 then [92, 116]
      else if c < 32 then [92, 117, 48, 48, hex_digit (c div 16), hex_digit (c mod 16)]
      else [c])"

definition encode_basestring :: "unicode \<Rightarrow> unicode" where
  "encode_basestring s = 34 # concat (map escape_char s) @ [34]"

text \<open>A float: \<^verbatim>\<open>float.__repr__\<close>, a parameter, for a finite one.\<close>

definition floatstr :: "(rat \<Rightarrow> string) \<Rightarrow> pyfloat \<Rightarrow> unicode" where
  "floatstr float_repr f =
     (case f of
        Finite q \<Rightarrow> str (float_repr q)
      | NaN \<Rightarrow> str ''NaN''
      | PosInf \<Rightarrow> str ''Infinity''
      | NegInf \<Rightarrow> str ''-Infinity'')"

text \<open>The encoder with \<^verbatim>\<open>indent=2\<close>: an empty list or dictionary is written as \<^verbatim>\<open>[]\<close> or
  \<^verbatim>\<open>{}\<close>; otherwise every item starts a line, indented by two spaces for each level, items
  are separated by a comma, and a key is followed by a colon and a space.\<close>

definition newline_indent :: "nat \<Rightarrow> unicode" where
  "newline_indent level = 10 # replicate (2 * level) 32"

fun join :: "unicode \<Rightarrow> unicode list \<Rightarrow> unicode" where
  "join separator [] = []"
| "join separator [chunk] = chunk"
| "join separator (chunk # rest) = chunk @ separator @ join separator rest"

fun iterencode :: "(rat \<Rightarrow> string) \<Rightarrow> nat \<Rightarrow> pyvalue \<Rightarrow> unicode" where
  "iterencode float_repr level PNone = str ''null''"
| "iterencode float_repr level (PBool b) = (if b then str ''true'' else str ''false'')"
| "iterencode float_repr level (PInt i) = int_repr i"
| "iterencode float_repr level (PFloat f) = floatstr float_repr f"
| "iterencode float_repr level (PStr s) = encode_basestring s"
| "iterencode float_repr level (PList lst) =
     (if lst = [] then str ''[]''
      else 91 # newline_indent (level + 1) @
           join (44 # newline_indent (level + 1))
             (map (iterencode float_repr (level + 1)) lst) @
           newline_indent level @ [93])"
| "iterencode float_repr level (PDict dct) =
     (if dct = [] then str ''{}''
      else 123 # newline_indent (level + 1) @
           join (44 # newline_indent (level + 1))
             (map (\<lambda>item. encode_basestring (fst item) @ [58, 32] @
                          iterencode float_repr (level + 1) (snd item)) dct) @
           newline_indent level @ [125])"

text \<open>The file object encodes what is written to it as UTF-8 and raises on a surrogate.\<close>

definition utf8_char :: "nat \<Rightarrow> error + nat list" where
  "utf8_char c =
     (if c < 128 then Inr [c]
      else if c < 2048 then Inr [192 + c div 64, 128 + c mod 64]
      else if 55296 \<le> c \<and> c < 57344 then Inl UnicodeEncodeError
      else if c < 65536 then Inr [224 + c div 4096, 128 + c div 64 mod 64, 128 + c mod 64]
      else Inr [240 + c div 262144, 128 + c div 4096 mod 64, 128 + c div 64 mod 64,
                128 + c mod 64])"

fun utf8_encode :: "unicode \<Rightarrow> error + nat list" where
  "utf8_encode [] = Inr []"
| "utf8_encode (c # cs) =
     (case utf8_char c of
        Inl e \<Rightarrow> Inl e
      | Inr bytes \<Rightarrow>
          (case utf8_encode cs of Inl e \<Rightarrow> Inl e | Inr rest \<Rightarrow> Inr (bytes @ rest)))"

text \<open>The bytes that \<^verbatim>\<open>json.dump\<close> leaves in the file, or its exception; and \<^verbatim>\<open>save_data\<close> on
  a file system that holds bytes. What an interrupted write leaves of the file is not
  modelled.\<close>

definition write_json :: "(rat \<Rightarrow> string) \<Rightarrow> pyvalue \<Rightarrow> error + nat list" where
  "write_json float_repr data = utf8_encode (iterencode float_repr 0 data)"

text \<open>A document of the sections above as a Python value.\<close>

fun value_of :: "json \<Rightarrow> pyvalue" where
  "value_of JNull = PNone"
| "value_of (JBool b) = PBool b"
| "value_of (JInt i) = PInt i"
| "value_of (JFloat f) = PFloat f"
| "value_of (JStr s) = PStr (str s)"
| "value_of (JArr xs) = PList (map value_of xs)"
| "value_of (JObj kvs) = PDict (map (\<lambda>kv. (str (fst kv), value_of (snd kv))) kvs)"

definition save_data_bytes ::
  "(rat \<Rightarrow> string) \<Rightarrow> pyvalue \<Rightarrow> string \<Rightarrow> (string \<times> nat list) list \<Rightarrow>
   error + (string \<times> nat list) list" where
  "save_data_bytes float_repr data filename fs =
     (case write_json float_repr data of
        Inl e \<Rightarrow> Inl e
      | Inr bytes \<Rightarrow> Inr (fs @ [(''data/raw/'' @ filename, bytes)]))"

text \<open>The snapshot of a repository with one issue, whose title is the lone surrogate
  \<open>0xD83D\<close>.\<close>

definition surrogate_snapshot :: pyvalue where
  "surrogate_snapshot =
     PDict [(str ''repository'', PStr (str ''numpy/numpy'')),
            (str ''collected at'', PStr (str ''2026-11-03T12:00:00'')),
            (str ''info'', PNone),
            (str ''issues'', PList [PDict [(str ''number'', PInt 7),
                                           (str ''title'', PStr [55357])]]),
            (str ''commits'', PList [])]"


section \<open>Properties of the merger\<close>

lemma for_keys_key:
  "for_keys ks (key, data) = Inr (key', data') \<Longrightarrow> key' = (if ks = [] then key else Some (last ks))"
proof (induction ks arbitrary: key data)
  case Nil
  then show ?case by simp
next
  case (Cons k ks)
  then show ?case
    by (auto split: sum.splits bool.splits if_splits)
qed

lemma load_file_key: "load_file content = Inr (key, data) \<Longrightarrow> key = ''mlflow/mlflow''"
proof -
  assume a: "load_file content = Inr (key, data)"
  then obtain d where "for_keys KEYS (None, d) = Inr (Some key, data)"
    unfolding load_file_def by (simp split: sum.splits option.splits prod.splits)
  from for_keys_key [OF this] show ?thesis
    by (simp add: KEYS_def)
qed

lemma combine_single:
  "combined_data = [] \<or> (\<exists>d. combined_data = [(''mlflow/mlflow'', d)]) \<Longrightarrow>
   combine fs combined_data =
     (if loaded fs = [] then combined_data else [(''mlflow/mlflow'', last (loaded fs))])"
proof (induction fs arbitrary: combined_data)
  case Nil
  then show ?case by simp
next
  case (Cons f fs)
  show ?case
  proof (cases "load_file (snd f)")
    case (Inl e)
    with Cons show ?thesis by simp
  next
    case (Inr kd)
    obtain key data where kd: "kd = (key, data)" by (cases kd)
    with Inr have key: "key = ''mlflow/mlflow''" by (auto dest: load_file_key)
    from Cons.prems have upd: "AList.update key data combined_data = [(''mlflow/mlflow'', data)]"
      by (auto simp: key)
    have "combine (f # fs) combined_data = combine fs [(''mlflow/mlflow'', data)]"
      using Inr kd upd by simp
    also have "\<dots> = (if loaded fs = [] then [(''mlflow/mlflow'', data)]
                     else [(''mlflow/mlflow'', last (loaded fs))])"
      by (rule Cons.IH) simp
    finally show ?thesis using Inr kd by simp
  qed
qed


text \<open>What a finished block leaves of a dictionary: its top-level keys, in their order. A
  document with none of the identifiers at top level is left as it is.\<close>

lemma update_present_keys:
  "k \<in> set (map fst kvs) \<Longrightarrow> map fst (AList.update k v kvs) = map fst kvs"
  by (simp add: update_keys)

lemma stamp_keys:
  assumes "k \<in> set (map fst kvs)" and "stamp (JObj kvs) k = Inr d"
  shows "\<exists>kvs'. d = JObj kvs' \<and> map fst kvs' = map fst kvs"
proof -
  from assms(2) obtain v where "d = JObj (AList.update k v kvs)"
    unfolding stamp_def by (auto split: sum.splits option.splits)
  with update_present_keys [OF assms(1)] show ?thesis by blast
qed

lemma for_keys_keys:
  "for_keys ks (key, JObj kvs) = Inr (key', d) \<Longrightarrow>
   \<exists>kvs'. d = JObj kvs' \<and> map fst kvs' = map fst kvs"
proof (induction ks arbitrary: key kvs)
  case Nil
  then show ?case by auto
next
  case (Cons k ks)
  show ?case
  proof (cases "k \<in> set (map fst kvs)")
    case False
    with Cons.prems have "for_keys ks (Some k, JObj kvs) = Inr (key', d)" by simp
    from Cons.IH [OF this] show ?thesis .
  next
    case True
    with Cons.prems obtain d1 where s: "stamp (JObj kvs) k = Inr d1"
      and r: "for_keys ks (Some k, d1) = Inr (key', d)"
      by (auto split: sum.splits)
    from stamp_keys [OF True s] obtain kvs1 where d1: "d1 = JObj kvs1"
      and k1: "map fst kvs1 = map fst kvs" by blast
    from Cons.IH [OF r [unfolded d1]] k1 show ?thesis by simp
  qed
qed

lemma for_keys_absent:
  "set ks \<inter> set (map fst kvs) = {} \<Longrightarrow>
   for_keys ks (key, JObj kvs) = Inr (if ks = [] then key else Some (last ks), JObj kvs)"
  by (induction ks arbitrary: key) auto

lemma load_file_absent:
  "set KEYS \<inter> set (map fst kvs) = {} \<Longrightarrow>
   load_file (Inr (JObj kvs)) = Inr (''mlflow/mlflow'', JObj kvs)"
  unfolding load_file_def
  by (simp add: for_keys_absent) (simp add: KEYS_def)

text \<open>The document that a finished block stores, against the document read: other than a
  dictionary it is unchanged; a dictionary keeps its keys and their order, and its values
  but for the stamp under each identifier.\<close>

lemma stamp_other: "\<not> is_dict data \<Longrightarrow> stamp data k = Inl TypeError"
  by (cases data) (simp_all add: stamp_def)

lemma for_keys_other:
  "\<not> is_dict data \<Longrightarrow> for_keys ks (key, data) = Inr (key', d) \<Longrightarrow> d = data"
proof (induction ks arbitrary: key)
  case Nil
  then show ?case by simp
next
  case (Cons k ks)
  then show ?case
    by (auto simp: stamp_other split: sum.splits bool.splits)
qed

lemma stamp_values:
  assumes "stamp (JObj kvs) k = Inr (JObj kvs')"
  shows "map_of kvs' = (map_of kvs)(k := map_option (stamped k) (map_of kvs k))"
proof -
  from assms obtain inner where v: "map_of kvs k = Some (JObj inner)"
    and kvs': "kvs' = AList.update k (JObj (AList.update ''repository'' (JStr k) inner)) kvs"
    unfolding stamp_def
    by (auto split: sum.splits option.splits elim: py_setitem.elims)
  show ?thesis
    unfolding kvs' by (simp add: update_conv' v)
qed

lemma for_keys_values:
  "distinct ks \<Longrightarrow> for_keys ks (key, JObj kvs) = Inr (key', JObj kvs') \<Longrightarrow>
   map_of kvs' k = (if k \<in> set ks then map_option (stamped k) (map_of kvs k) else map_of kvs k)"
proof (induction ks arbitrary: key kvs)
  case Nil
  then show ?case by simp
next
  case (Cons a ks)
  show ?case
  proof (cases "a \<in> set (map fst kvs)")
    case False
    with Cons.prems have r: "for_keys ks (Some a, JObj kvs) = Inr (key', JObj kvs')" by simp
    from False have "map_of kvs a = None" by (simp add: map_of_eq_None_iff)
    with Cons.IH [OF _ r] Cons.prems(1) show ?thesis by auto
  next
    case True
    with Cons.prems obtain d1 where s: "stamp (JObj kvs) a = Inr d1"
      and r: "for_keys ks (Some a, d1) = Inr (key', JObj kvs')"
      by (auto split: sum.splits)
    from stamp_keys [OF True s] obtain kvs1 where d1: "d1 = JObj kvs1" by blast
    from stamp_values [OF s [unfolded d1]]
    have m1: "map_of kvs1 = (map_of kvs)(a := map_option (stamped a) (map_of kvs a))" .
    from Cons.IH [OF _ r [unfolded d1]] Cons.prems(1)
    have "map_of kvs' k = (if k \<in> set ks then map_option (stamped k) (map_of kvs1 k) else map_of kvs1 k)"
      by simp
    with m1 Cons.prems(1) show ?thesis by auto
  qed
qed

lemma load_file_document:
  assumes "load_file (Inr data) = Inr (key, d)"
  shows "case data of
           JObj kvs \<Rightarrow>
             (\<exists>kvs'. d = JObj kvs' \<and> map fst kvs' = map fst kvs \<and>
                (\<forall>k. map_of kvs' k =
                   (if k \<in> set KEYS then map_option (stamped k) (map_of kvs k) else map_of kvs k)))
         | _ \<Rightarrow> d = data"
proof -
  from assms obtain key' where r: "for_keys KEYS (None, data) = Inr (key', d)"
    unfolding load_file_def by (auto split: sum.splits option.splits)
  have dk: "distinct KEYS" by (simp add: KEYS_def)
  show ?thesis
  proof (cases "is_dict data")
    case False
    from for_keys_other [OF False r] False show ?thesis by (cases data) simp_all
  next
    case True
    then obtain kvs where data: "data = JObj kvs" by (cases data) simp_all
    from for_keys_keys [OF r [unfolded data]] obtain kvs' where d: "d = JObj kvs'"
      and k: "map fst kvs' = map fst kvs" by blast
    from for_keys_values [OF dk r [unfolded data d]] d k show ?thesis
      by (simp add: data)
  qed
qed

text \<open>The block for one file, on the document read: it stores the stamped document of a
  loadable file and raises on any other.\<close>

lemma update_distinct:
  "distinct (map fst kvs) \<Longrightarrow> map_of kvs k = Some v \<Longrightarrow>
   AList.update k v' kvs = map (\<lambda>kv. if fst kv = k then (k, v') else kv) kvs"
proof (induction kvs)
  case Nil
  then show ?case by simp
next
  case (Cons a kvs)
  show ?case
  proof (cases "fst a = k")
    case True
    then have "k \<notin> fst ` set kvs" using Cons.prems(1) by auto
    then have "map (\<lambda>kv. if fst kv = k then (k, v') else kv) kvs = kvs"
      by (intro map_idI) force
    with True show ?thesis by simp
  next
    case False
    with Cons show ?thesis by simp
  qed
qed

lemma for_keys_stampable:
  "distinct ks \<Longrightarrow> distinct (map fst kvs) \<Longrightarrow> list_all (stampable ks) kvs \<Longrightarrow>
   for_keys ks (key, JObj kvs) =
     Inr (if ks = [] then key else Some (last ks), JObj (map (restamp ks) kvs))"
proof (induction ks arbitrary: key kvs)
  case Nil
  then show ?case by (simp add: restamp_def)
next
  case (Cons k ks)
  from Cons.prems(1) have dk: "distinct ks" and nk: "k \<notin> set ks" by simp_all
  show ?case
  proof (cases "k \<in> set (map fst kvs)")
    case False
    have st: "list_all (stampable ks) kvs"
      using Cons.prems(3) by (auto simp: list_all_iff stampable_def split: if_splits)
    have same: "map (restamp (k # ks)) kvs = map (restamp ks) kvs"
      using False by (intro map_cong) (auto simp: restamp_def)
    from Cons.IH [OF dk Cons.prems(2) st, of "Some k"] False same show ?thesis by simp
  next
    case True
    then obtain v where v: "map_of kvs k = Some v"
      by (cases "map_of kvs k") (auto simp: map_of_eq_None_iff)
    then have "(k, v) \<in> set kvs" by (rule map_of_SomeD)
    with Cons.prems(3) have "is_dict v" by (auto simp: list_all_iff stampable_def)
    then obtain inner where inner: "v = JObj inner" by (cases v) simp_all
    let ?v' = "JObj (AList.update ''repository'' (JStr k) inner)"
    let ?kvs1 = "map (\<lambda>kv. if fst kv = k then (k, ?v') else kv) kvs"
    have s: "stamp (JObj kvs) k = Inr (JObj ?kvs1)"
      using v inner update_distinct [OF Cons.prems(2) v] by (simp add: stamp_def)
    have keys1: "map fst ?kvs1 = map fst kvs" by (induction kvs) auto
    have d1: "distinct (map fst ?kvs1)" using Cons.prems(2) by (simp only: keys1)
    have st1: "list_all (stampable ks) ?kvs1"
      using Cons.prems(3) nk by (auto simp: list_all_iff stampable_def split: if_splits)
    have val: "\<And>kv. kv \<in> set kvs \<Longrightarrow> fst kv = k \<Longrightarrow> snd kv = v"
    proof -
      fix kv assume "kv \<in> set kvs" "fst kv = k"
      then have "(k, snd kv) \<in> set kvs" by (cases kv) auto
      with Cons.prems(2) have "map_of kvs k = Some (snd kv)" by simp
      with v show "snd kv = v" by simp
    qed
    have same: "map (restamp ks) ?kvs1 = map (restamp (k # ks)) kvs"
      unfolding map_map
    proof (intro map_cong refl)
      fix kv assume kv: "kv \<in> set kvs"
      show "(restamp ks \<circ> (\<lambda>kv. if fst kv = k then (k, ?v') else kv)) kv = restamp (k # ks) kv"
      proof (cases "fst kv = k")
        case True
        with val [OF kv] have "snd kv = JObj inner" by (simp add: inner)
        with True nk show ?thesis by (simp add: restamp_def)
      next
        case False
        then show ?thesis by (simp add: restamp_def)
      qed
    qed
    from Cons.IH [OF dk d1 st1, of "Some k"] True s same show ?thesis by simp
  qed
qed

lemma for_keys_unstampable:
  "distinct (map fst kvs) \<Longrightarrow> \<not> list_all (stampable ks) kvs \<Longrightarrow>
   \<exists>e. for_keys ks (key, JObj kvs) = Inl e"
proof (induction ks arbitrary: key kvs)
  case Nil
  then show ?case by (simp add: list_all_iff stampable_def)
next
  case (Cons k ks)
  from Cons.prems(2) obtain kv where kv: "kv \<in> set kvs" "fst kv = k \<or> fst kv \<in> set ks"
    "\<not> is_dict (snd kv)"
    by (auto simp: list_all_iff stampable_def split: if_splits)
  show ?case
  proof (cases "k \<in> set (map fst kvs)")
    case False
    with kv have "fst kv \<in> set ks" by auto
    with kv have "\<not> list_all (stampable ks) kvs" by (auto simp: list_all_iff stampable_def)
    from Cons.IH [OF Cons.prems(1) this, of "Some k"] False show ?thesis by simp
  next
    case True
    then obtain v where v: "map_of kvs k = Some v"
      by (cases "map_of kvs k") (auto simp: map_of_eq_None_iff)
    show ?thesis
    proof (cases "is_dict v")
      case False
      then have "stamp (JObj kvs) k = Inl TypeError"
        using v by (cases v) (simp_all add: stamp_def)
      with True show ?thesis by simp
    next
      case dict: True
      then obtain inner where inner: "v = JObj inner" by (cases v) simp_all
      let ?v' = "JObj (AList.update ''repository'' (JStr k) inner)"
      let ?kvs1 = "map (\<lambda>kv. if fst kv = k then (k, ?v') else kv) kvs"
      have s: "stamp (JObj kvs) k = Inr (JObj ?kvs1)"
        using v inner update_distinct [OF Cons.prems(1) v] by (simp add: stamp_def)
      have keys1: "map fst ?kvs1 = map fst kvs" by (induction kvs) auto
      have d1: "distinct (map fst ?kvs1)" using Cons.prems(1) by (simp only: keys1)
      have "fst kv \<noteq> k"
      proof
        assume "fst kv = k"
        with kv(1) have "(k, snd kv) \<in> set kvs" by (cases kv) auto
        with Cons.prems(1) have "map_of kvs k = Some (snd kv)" by simp
        with v dict kv(3) show False by simp
      qed
      with kv have "kv \<in> set ?kvs1" "fst kv \<in> set ks" by auto
      with kv(3) have "\<not> list_all (stampable ks) ?kvs1"
        by (auto simp: list_all_iff stampable_def)
      from Cons.IH [OF d1 this, of "Some k"] True s show ?thesis by simp
    qed
  qed
qed

lemma for_keys_list:
  "for_keys ks (key, JArr xs) =
     (if list_all (\<lambda>k. JStr k \<notin> set xs) ks
      then Inr (if ks = [] then key else Some (last ks), JArr xs) else Inl TypeError)"
  by (induction ks arbitrary: key) (auto simp: stamp_def split: bool.splits)

lemma for_keys_string:
  "for_keys ks (key, JStr s) =
     (if list_all (\<lambda>k. \<not> sublist k s) ks
      then Inr (if ks = [] then key else Some (last ks), JStr s) else Inl TypeError)"
  by (induction ks arbitrary: key) (auto simp: stamp_def split: bool.splits)

lemma KEYS_facts: "distinct KEYS" "KEYS \<noteq> []" "last KEYS = ''mlflow/mlflow''"
  by (simp_all add: KEYS_def)

lemma load_file_loadable:
  assumes "distinct_keys data" and "loadable data"
  shows "load_file (Inr data) = Inr (''mlflow/mlflow'', stamped_document data)"
proof (cases data)
  case (JObj kvs)
  with assms for_keys_stampable [OF KEYS_facts(1), of kvs None] show ?thesis
    by (simp add: load_file_def KEYS_facts)
next
  case (JArr xs)
  with assms show ?thesis by (simp add: load_file_def for_keys_list KEYS_facts)
next
  case (JStr s)
  with assms show ?thesis by (simp add: load_file_def for_keys_string KEYS_facts)
qed (use assms in simp_all)

lemma load_file_not_loadable:
  assumes "distinct_keys data" and "\<not> loadable data"
  shows "\<exists>e. load_file (Inr data) = Inl e"
proof (cases data)
  case (JObj kvs)
  with assms for_keys_unstampable [of kvs KEYS None] obtain e where
    "for_keys KEYS (None, data) = Inl e" by auto
  then show ?thesis by (simp add: load_file_def)
next
  case (JArr xs)
  with assms show ?thesis by (simp add: load_file_def for_keys_list)
next
  case (JStr s)
  with assms show ?thesis by (simp add: load_file_def for_keys_string)
qed (simp_all add: load_file_def KEYS_def)

lemma loaded_stored:
  "list_all decoded json_files \<Longrightarrow> loaded json_files = stored_documents json_files"
proof (induction json_files)
  case Nil
  then show ?case by simp
next
  case (Cons f fs)
  then have IH: "loaded fs = stored_documents fs" by simp
  show ?case
  proof (cases "snd f")
    case (Inl e)
    then show ?thesis using IH by (simp add: load_file_def)
  next
    case (Inr data)
    with Cons.prems have d: "distinct_keys data" by (simp add: decoded_def)
    show ?thesis
    proof (cases "loadable data")
      case True
      from load_file_loadable [OF d True] Inr IH True show ?thesis by simp
    next
      case False
      from load_file_not_loadable [OF d False] Inr IH False show ?thesis by auto
    qed
  qed
qed

text \<open>
  Claim C10 as stated has the merged value equal the whole content of the last file that
  was parsed. In the four sample files the last one parsed, \<^verbatim>\<open>d.json\<close>, holds a number under
  \<^verbatim>\<open>numpy/numpy\<close>: its block raises and the file is skipped, so the value stored comes from
  \<^verbatim>\<open>b.json\<close>. And the value stored is not the content of \<^verbatim>\<open>b.json\<close> either: its nested
  \<^verbatim>\<open>repository\<close> was \<^verbatim>\<open>old\<close> and is now the identifier.
\<close>

theorem merged_value_not_last_parsed_counterexample:
  "snd (last sample_files) = Inr (JObj [(''numpy/numpy'', JInt 5)]) \<and>
   combine sample_files [] =
     [(''mlflow/mlflow'',
       JObj [(''numpy/numpy'', JObj [(''repository'', JStr ''numpy/numpy''), (''stars'', JInt 2)]),
             (''note'', JStr ''kept'')])] \<and>
   JObj [(''numpy/numpy'', JObj [(''repository'', JStr ''numpy/numpy''), (''stars'', JInt 2)]),
         (''note'', JStr ''kept'')] \<noteq> JObj [(''numpy/numpy'', JInt 5)] \<and>
   snd (sample_files ! 1) =
     Inr (JObj [(''numpy/numpy'', JObj [(''repository'', JStr ''old''), (''stars'', JInt 2)]),
                (''note'', JStr ''kept'')]) \<and>
   JObj [(''numpy/numpy'', JObj [(''repository'', JStr ''numpy/numpy''), (''stars'', JInt 2)]),
         (''note'', JStr ''kept'')] \<noteq>
   JObj [(''numpy/numpy'', JObj [(''repository'', JStr ''old''), (''stars'', JInt 2)]),
         (''note'', JStr ''kept'')]"
  by (simp add: sample_files_def load_file_def KEYS_def stamp_def)

text \<open>
  Claim C10, amended. The merged document has at most one top-level key, the last
  identifier of the fixed list, \<^verbatim>\<open>mlflow/mlflow\<close>. A file is stored when it decodes and the
  stamping does not raise on it: when it is a dictionary in which every identifier present
  holds a dictionary (or a list of which no identifier is an element, or a string in which
  none occurs). Each such file has its whole document assigned under that one key, with the
  nested \<^verbatim>\<open>repository\<close> of every identifier present set to the identifier and nothing else
  changed. So the merged document is empty when no file was stored, and otherwise holds,
  under \<^verbatim>\<open>mlflow/mlflow\<close>, the whole stamped document of the last file stored, not a selection
  by identifier; the file written by \<^verbatim>\<open>main\<close> holds exactly this.
\<close>

theorem merged_document_last_stored:
  "length (combine json_files []) \<le> 1 \<and>
   set (map fst (combine json_files [])) \<subseteq> {''mlflow/mlflow''} \<and>
   (list_all decoded json_files \<longrightarrow>
      combine json_files [] =
        (if stored_documents json_files = [] then []
         else [(''mlflow/mlflow'', last (stored_documents json_files))]) \<and>
      (json_files \<noteq> [] \<longrightarrow>
         merger_main True json_files timestamp =
           [(''data/raw/combined_data_'' @ timestamp @ ''.json'',
             JObj (if stored_documents json_files = [] then []
                   else [(''mlflow/mlflow'', last (stored_documents json_files))]))]))"
proof -
  have c: "combine json_files [] =
     (if loaded json_files = [] then []
      else [(''mlflow/mlflow'', last (loaded json_files))])"
    by (rule combine_single) simp
  show ?thesis
  proof (intro conjI impI)
    show "length (combine json_files []) \<le> 1" by (simp add: c)
    show "set (map fst (combine json_files [])) \<subseteq> {''mlflow/mlflow''}" by (simp add: c)
  next
    assume "list_all decoded json_files"
    then show "combine json_files [] =
        (if stored_documents json_files = [] then []
         else [(''mlflow/mlflow'', last (stored_documents json_files))])"
      using c by (simp add: loaded_stored)
  next
    assume "list_all decoded json_files" and "json_files \<noteq> []"
    then show "merger_main True json_files timestamp =
           [(''data/raw/combined_data_'' @ timestamp @ ''.json'',
             JObj (if stored_documents json_files = [] then []
                   else [(''mlflow/mlflow'', last (stored_documents json_files))]))]"
      using c by (simp add: loaded_stored merger_main_def save_data_def)
  qed
qed

theorem merged_document_last_stored_witness:
  "list_all decoded sample_files \<and>
   stored_documents sample_files =
     [JObj [(''pandas-dev/pandas'', JObj [(''repository'', JStr ''pandas-dev/pandas'')]),
            (''extra'', JInt 1)],
      JObj [(''numpy/numpy'', JObj [(''repository'', JStr ''numpy/numpy''), (''stars'', JInt 2)]),
            (''note'', JStr ''kept'')]] \<and>
   combine sample_files [] =
     [(''mlflow/mlflow'',
       JObj [(''numpy/numpy'', JObj [(''repository'', JStr ''numpy/numpy''), (''stars'', JInt 2)]),
             (''note'', JStr ''kept'')])] \<and>
   merger_main True sample_files ''20261103_130000'' =
     [(''data/raw/combined_data_20261103_130000.json'',
       JObj [(''mlflow/mlflow'',
         JObj [(''numpy/numpy'', JObj [(''repository'', JStr ''numpy/numpy''), (''stars'', JInt 2)]),
               (''note'', JStr ''kept'')])])]"
proof -
  have d: "list_all decoded sample_files"
    by (simp add: sample_files_def decoded_def)
  have s: "stored_documents sample_files =
     [JObj [(''pandas-dev/pandas'', JObj [(''repository'', JStr ''pandas-dev/pandas'')]),
            (''extra'', JInt 1)],
      JObj [(''numpy/numpy'', JObj [(''repository'', JStr ''numpy/numpy''), (''stars'', JInt 2)]),
            (''note'', JStr ''kept'')]]"
    by (simp add: sample_files_def stampable_def restamp_def KEYS_def)
  have n: "sample_files \<noteq> []" by (simp add: sample_files_def)
  from merged_document_last_stored [of sample_files "''20261103_130000''"] d s n
  show ?thesis by simp
qed

text \<open>
  Claim C1, evaluated on the code. Two files hold the top-level key \<^verbatim>\<open>numpy/numpy\<close>. The
  claim has the merged document map \<^verbatim>\<open>numpy/numpy\<close> to the value from the file processed
  last. The code stamps the nested \<^verbatim>\<open>repository\<close> field, but stores the whole document of
  the last file under \<^verbatim>\<open>mlflow/mlflow\<close>: the merged document has no key \<^verbatim>\<open>numpy/numpy\<close>.
\<close>

theorem merge_numpy_key_lost:
  "combine
     [(''first.json'',
        Inr (JObj [(''numpy/numpy'', JObj [(''repository'', JStr ''one''), (''stars'', JInt 1)])])),
      (''second.json'',
        Inr (JObj [(''numpy/numpy'', JObj [(''repository'', JStr ''two''), (''stars'', JInt 2)])]))]
     [] =
   [(''mlflow/mlflow'',
      JObj [(''numpy/numpy'', JObj [(''repository'', JStr ''numpy/numpy''), (''stars'', JInt 2)])])]
   \<and> map_of
     (combine
       [(''first.json'',
          Inr (JObj [(''numpy/numpy'', JObj [(''repository'', JStr ''one''), (''stars'', JInt 1)])])),
        (''second.json'',
          Inr (JObj [(''numpy/numpy'', JObj [(''repository'', JStr ''two''), (''stars'', JInt 2)])]))]
       []) ''numpy/numpy'' = None"
  by (simp add: load_file_def KEYS_def stamp_def)


section \<open>Properties of the collector\<close>

subsection \<open>The loops, round by round\<close>

lemma py_slice_to_nonneg: "0 \<le> n \<Longrightarrow> py_slice_to xs n = take (nat n) xs"
  by (simp add: py_slice_to_def)

lemma py_slice_to_Nil: "py_slice_to [] n = []"
  by (simp add: py_slice_to_def)

lemma issues_loop_full:
  "max_issues \<le> int (length issues) \<Longrightarrow>
   issues_loop get max_issues issues page requested =
     Some (Inr (py_slice_to issues max_issues), requested)"
  by (subst issues_loop.simps) simp

lemma commits_loop_full:
  "max_commits \<le> int (length commits) \<Longrightarrow>
   commits_loop get max_commits commits page requested =
     Some (Inr (py_slice_to commits max_commits), requested)"
  by (subst commits_loop.simps) simp

lemma issues_loop_round:
  "int (length issues) < max_issues \<Longrightarrow>
   issues_loop get max_issues issues page requested =
     (case issues_body (get page) max_issues issues of
        Break issues' \<Rightarrow> Some (Inr (py_slice_to issues' max_issues), requested @ [page])
      | Continue issues' \<Rightarrow> issues_loop get max_issues issues' (page + 1) (requested @ [page])
      | Raise e \<Rightarrow> Some (Inl e, requested @ [page]))"
  by (subst issues_loop.simps) simp

lemma commits_loop_round:
  "int (length commits) < max_commits \<Longrightarrow>
   commits_loop get max_commits commits page requested =
     (case commits_body (get page) commits of
        Break commits' \<Rightarrow> Some (Inr (py_slice_to commits' max_commits), requested @ [page])
      | Continue commits' \<Rightarrow> commits_loop get max_commits commits' (page + 1) (requested @ [page])
      | Raise e \<Rightarrow> Some (Inl e, requested @ [page]))"
  by (subst commits_loop.simps) simp

subsection \<open>What \<^verbatim>\<open>fetch_issues\<close> returns\<close>

lemma contains_no_pull_request:
  "py_contains ''pull_request'' x = Inr False \<Longrightarrow> no_pull_request x"
  by (cases x) (simp_all add: no_pull_request_def)

lemma keep_issues_sound:
  "keep_issues xs = Inr ys \<Longrightarrow> \<forall>y\<in>set ys. no_pull_request y"
proof (induction xs arbitrary: ys)
  case Nil
  then show ?case by simp
next
  case (Cons x xs)
  then show ?case
    by (auto split: sum.splits if_splits intro: contains_no_pull_request)
qed

lemma actual_issues_sound:
  "actual_issues batch = Inr ys \<Longrightarrow> \<forall>y\<in>set ys. no_pull_request y"
  unfolding actual_issues_def
  by (auto split: sum.splits dest: keep_issues_sound)

lemma issues_body_extends:
  assumes "issues_body response max_issues issues = Break issues' \<or>
           issues_body response max_issues issues = Continue issues'"
  shows "\<exists>actual. issues' = issues @ actual \<and> (\<forall>y\<in>set actual. no_pull_request y)"
proof -
  have "issues' = issues \<or>
        (\<exists>batch actual. actual_issues batch = Inr actual \<and> issues' = issues @ actual)"
    using assms unfolding issues_body_def
    by (auto split: if_splits sum.splits bool.splits)
  then show ?thesis
  proof
    assume "issues' = issues"
    then have "issues' = issues @ [] \<and> (\<forall>y\<in>set []. no_pull_request y)" by simp
    then show ?thesis by blast
  next
    assume "\<exists>batch actual. actual_issues batch = Inr actual \<and> issues' = issues @ actual"
    then show ?thesis using actual_issues_sound by blast
  qed
qed

lemma issues_loop_safe:
  assumes run: "issues_loop get max_issues issues page requested = Some result"
  shows "issues_post max_issues issues result"
proof (rule issues_loop.raw_induct [where P = "\<lambda>g N acc p r res. issues_post N acc res", OF _ run])
  fix loop :: "(nat \<Rightarrow> response) \<Rightarrow> int \<Rightarrow> json list \<Rightarrow> nat \<Rightarrow> nat list \<Rightarrow>
   ((error + json list) \<times> nat list) option"
  fix g N acc p r res
  assume IH: "\<And>g N acc p r res. loop g N acc p r = Some res \<Longrightarrow> issues_post N acc res"
  assume round: "(if int (length acc) < N then
        (case issues_body (g p) N acc of
           Break issues' \<Rightarrow> Some (Inr (py_slice_to issues' N), r @ [p])
         | Continue issues' \<Rightarrow> loop g N issues' (p + 1) (r @ [p])
         | Raise e \<Rightarrow> Some (Inl e, r @ [p]))
      else Some (Inr (py_slice_to acc N), r)) = Some res"
  show "issues_post N acc res"
  proof (cases "int (length acc) < N")
    case False
    with round have res: "res = (Inr (py_slice_to acc N), r)" by simp
    show ?thesis
    proof (cases "N \<le> 0")
      case True
      then show ?thesis using res by (auto simp: issues_post_def py_slice_to_Nil)
    next
      case False
      then show ?thesis using res
        by (auto simp: issues_post_def py_slice_to_nonneg dest: in_set_takeD)
    qed
  next
    case True
    then have pos: "0 < N" by linarith
    show ?thesis
    proof (cases "issues_body (g p) N acc")
      case (Raise e)
      with True round show ?thesis by (auto simp: issues_post_def)
    next
      case (Break issues')
      with True round have res: "res = (Inr (py_slice_to issues' N), r @ [p])"
        by simp
      from Break issues_body_extends obtain actual where
        "issues' = acc @ actual" "\<forall>y\<in>set actual. no_pull_request y" by blast
      then show ?thesis using res pos
        by (auto simp: issues_post_def py_slice_to_nonneg dest!: in_set_takeD)
    next
      case (Continue issues')
      with True round have rec: "loop g N issues' (p + 1) (r @ [p]) = Some res"
        by simp
      from Continue issues_body_extends obtain actual where
        ext: "issues' = acc @ actual" "\<forall>y\<in>set actual. no_pull_request y" by blast
      from IH [OF rec] pos ext show ?thesis by (auto simp: issues_post_def)
    qed
  qed
qed

lemma ends_pagination_issues:
  "ends_pagination response \<Longrightarrow> issues_body response max_issues issues \<noteq> Continue issues'"
  unfolding ends_pagination_def issues_body_def response_json_def batch_empty_def
  by (auto split: option.splits sum.splits bool.splits)

lemma issues_loop_returns:
  "page \<le> p \<Longrightarrow> ends_pagination (get p) \<Longrightarrow>
   issues_loop get max_issues issues page requested \<noteq> None"
proof (induction "p - page" arbitrary: page issues requested)
  case 0
  then have "page = p" by simp
  with 0 show ?case
    by (subst issues_loop.simps)
      (auto split: flow.splits
        dest: ends_pagination_issues [where max_issues = max_issues and issues = issues])
next
  case (Suc n)
  then have "n = p - (page + 1)" "page + 1 \<le> p" by simp_all
  from Suc(1) [OF this Suc(4)] show ?case
    by (subst issues_loop.simps) (auto split: flow.splits)
qed

text \<open>
  Claim C2. For every cap and every source of pages, a list that \<^verbatim>\<open>fetch_issues\<close> returns
  has at most as many items as the cap allows and none of them carries the key
  \<^verbatim>\<open>pull_request\<close>, however many raw items were read to get there. The call does return
  (a list, or the exception of a malformed body) as soon as the source has a page that ends
  the pagination: an empty page, an undecodable one or a status other than 200.
\<close>

theorem fetch_issues_within_cap:
  "(\<forall>xs requested.
      fetch_issues issues_endpoint repo max_issues = Some (Inr xs, requested) \<longrightarrow>
      length xs \<le> nat max_issues \<and> (\<forall>x\<in>set xs. \<not> has_key ''pull_request'' x)) \<and>
   ((\<exists>p\<ge>1. ends_pagination (issues_endpoint repo p)) \<longrightarrow>
      fetch_issues issues_endpoint repo max_issues \<noteq> None)"
proof (intro conjI allI impI)
  fix xs requested
  assume "fetch_issues issues_endpoint repo max_issues = Some (Inr xs, requested)"
  then have "issues_post max_issues [] (Inr xs, requested)"
    unfolding fetch_issues_def by (rule issues_loop_safe)
  then show "length xs \<le> nat max_issues" and "\<forall>x\<in>set xs. \<not> has_key ''pull_request'' x"
    by (simp_all add: issues_post_def no_pull_request_def)
next
  assume "\<exists>p\<ge>1. ends_pagination (issues_endpoint repo p)"
  then obtain p where "1 \<le> p" "ends_pagination (issues_endpoint repo p)" by blast
  then show "fetch_issues issues_endpoint repo max_issues \<noteq> None"
    unfolding fetch_issues_def by (rule issues_loop_returns)
qed

theorem fetch_issues_within_cap_witness:
  "fetch_issues sample_issues ''numpy/numpy'' 2 =
     Some (Inr [JObj [(''number'', JInt 2)], JObj [(''number'', JInt 4)]], [1, 2]) \<and>
   length [JObj [(''number'', JInt 2)], JObj [(''number'', JInt 4)]] \<le> nat 2 \<and>
   \<not> has_key ''pull_request'' (JObj [(''number'', JInt 2)]) \<and>
   \<not> has_key ''pull_request'' (JObj [(''number'', JInt 4)]) \<and>
   ends_pagination (sample_issues ''numpy/numpy'' 3) \<and>
   fetch_issues sample_issues ''numpy/numpy'' 2 \<noteq> None"
proof -
  have run: "fetch_issues sample_issues ''numpy/numpy'' 2 =
     Some (Inr [JObj [(''number'', JInt 2)], JObj [(''number'', JInt 4)]], [1, 2])"
    by (simp add: fetch_issues_def issues_loop.simps issues_body_def sample_issues_def page_of_def
        response_json_def batch_empty_def actual_issues_def py_slice_to_def)
  have stop: "ends_pagination (sample_issues ''numpy/numpy'' 3)"
    by (simp add: ends_pagination_def sample_issues_def page_of_def)
  from fetch_issues_within_cap [of sample_issues "''numpy/numpy''" 2] run stop
  show ?thesis by auto
qed

text \<open>
  Claim C9. With a cap of zero or less, \<^verbatim>\<open>fetch_issues\<close> and \<^verbatim>\<open>fetch_commits\<close> return the
  empty list at once, whatever the repository and the source: the loop is not entered and
  no page is requested.
\<close>

theorem nonpositive_cap_no_request:
  "cap \<le> 0 \<longrightarrow>
     fetch_issues issues_endpoint repo cap = Some (Inr [], []) \<and>
     fetch_commits commits_endpoint repo cap = Some (Inr [], [])"
  unfolding fetch_issues_def fetch_commits_def
  by (simp add: issues_loop_full commits_loop_full py_slice_to_Nil)

theorem nonpositive_cap_no_request_witness:
  "(- 3 :: int) \<le> 0 \<and>
   fetch_issues sample_issues ''numpy/numpy'' (- 3) = Some (Inr [], []) \<and>
   fetch_commits sample_issues ''numpy/numpy'' (- 3) = Some (Inr [], [])"
  using nonpositive_cap_no_request [of "- 3" sample_issues "''numpy/numpy''" sample_issues]
  by simp

subsection \<open>\<^verbatim>\<open>check_rate_limit\<close>\<close>

text \<open>
  Claim C7. On a response with a status other than 200, \<^verbatim>\<open>check_rate_limit\<close> returns 0 and
  raises nothing, whatever the body. On a response with status 200 whose document holds
  \<^verbatim>\<open>resources.core\<close> with \<^verbatim>\<open>remaining\<close>, \<^verbatim>\<open>limit\<close> and a \<^verbatim>\<open>reset\<close> that is a time stamp, it
  returns the remaining count the server reported, a non-negative integer.
\<close>

theorem check_rate_limit_fails_closed:
  "(status_code response \<noteq> 200 \<longrightarrow>
      check_rate_limit fromtimestamp response = Inr (JInt 0)) \<and>
   (status_code response = 200 \<and> response_json response = Inr data \<and>
    py_getitem data ''resources'' = Inr resources \<and>
    py_getitem resources ''core'' = Inr core \<and>
    py_getitem core ''remaining'' = Inr (JInt (int remaining)) \<and>
    py_getitem core ''limit'' = Inr limit \<and>
    py_getitem core ''reset'' = Inr reset \<and>
    fromtimestamp reset = None \<longrightarrow>
      check_rate_limit fromtimestamp response = Inr (JInt (int remaining)) \<and>
      0 \<le> int remaining)"
  by (simp add: check_rate_limit_def)

theorem check_rate_limit_fails_closed_witness:
  "check_rate_limit (\<lambda>t. None) \<lparr>status_code = 403, body = None\<rparr> = Inr (JInt 0) \<and>
   check_rate_limit (\<lambda>t. None) (rate_limit_response 4987 5000 1762214400) = Inr (JInt 4987)"
proof -
  have "check_rate_limit (\<lambda>t. None) \<lparr>status_code = 403, body = None\<rparr> = Inr (JInt 0)"
    using check_rate_limit_fails_closed
      [of "\<lparr>status_code = 403, body = None\<rparr>" "\<lambda>t. None"]
    by simp
  moreover have "check_rate_limit (\<lambda>t. None) (rate_limit_response 4987 5000 1762214400) =
      Inr (JInt 4987)"
    using check_rate_limit_fails_closed
      [of "rate_limit_response 4987 5000 1762214400" "\<lambda>t. None"
          "JObj [(''resources'', JObj [(''core'',
               JObj [(''limit'', JInt 5000), (''remaining'', JInt 4987),
                     (''reset'', JInt 1762214400)])])]"
          "JObj [(''core'',
               JObj [(''limit'', JInt 5000), (''remaining'', JInt 4987),
                     (''reset'', JInt 1762214400)])]"
          "JObj [(''limit'', JInt 5000), (''remaining'', JInt 4987),
                     (''reset'', JInt 1762214400)]"
          4987 "JInt 5000" "JInt 1762214400"]
    by (simp add: rate_limit_response_def response_json_def)
  ultimately show ?thesis by simp
qed


subsection \<open>Well-formed pages\<close>

lemma keep_issues_dicts:
  "list_all is_dict b \<Longrightarrow> keep_issues b = Inr (filter no_pull_request b)"
proof (induction b)
  case Nil
  then show ?case by simp
next
  case (Cons x xs)
  then obtain kvs where "x = JObj kvs" by (cases x) simp_all
  with Cons show ?case by (simp add: no_pull_request_def)
qed

lemma issues_body_page:
  "list_all is_dict b \<Longrightarrow>
   issues_body (page_of b) max_issues issues =
     (if b = [] then Break issues
      else if max_issues \<le> int (length (issues @ filter no_pull_request b))
      then Break (issues @ filter no_pull_request b)
      else Continue (issues @ filter no_pull_request b))"
  by (simp add: issues_body_def page_of_def response_json_def batch_empty_def actual_issues_def
      keep_issues_dicts)

lemma commits_body_page:
  "commits_body (page_of b) commits =
     (if b = [] then Break commits
      else if int (length b) < per_page then Break (commits @ b)
      else Continue (commits @ b))"
  by (simp add: commits_body_def page_of_def response_json_def batch_empty_def)

lemma reports_error_message: "reports_error response \<Longrightarrow> \<exists>m. error_message response = Inr m"
  unfolding reports_error_def error_message_def response_json_def
  by (cases "body response") (auto split: json.splits)

lemma issues_body_error:
  "reports_error response \<Longrightarrow> issues_body response max_issues issues = Break issues"
  using reports_error_message [of response]
  by (auto simp: issues_body_def reports_error_def)

lemma commits_body_error:
  "reports_error response \<Longrightarrow> commits_body response commits = Break commits"
  using reports_error_message [of response]
  by (auto simp: commits_body_def reports_error_def)

lemma take_cap_append: "int (length xs) \<ge> n \<Longrightarrow> take (nat n) (xs @ ys) = take (nat n) xs"
  by simp

lemma issues_loop_pages:
  assumes "0 < max_issues"
    and "\<forall>i<length ps. get (page + i) = page_of (ps ! i)"
    and "get (page + length ps) = page_of []"
    and "\<forall>b\<in>set ps. b \<noteq> [] \<and> list_all is_dict b"
  shows "map_option fst (issues_loop get max_issues issues page requested) =
     Some (Inr (take (nat max_issues) (issues @ concat (map (filter no_pull_request) ps))))"
  using assms(2-4)
proof (induction ps arbitrary: issues page requested)
  case Nil
  then have last: "get page = page_of []" by simp
  show ?case
  proof (cases "int (length issues) < max_issues")
    case True
    then show ?thesis using assms(1) last
      by (simp add: issues_loop_round issues_body_page py_slice_to_nonneg)
  next
    case False
    then show ?thesis using assms(1)
      by (simp add: issues_loop_full py_slice_to_nonneg)
  qed
next
  case (Cons b ps)
  from Cons.prems(1) have here: "get page = page_of b" by auto
  from Cons.prems(3) have b: "b \<noteq> []" "list_all is_dict b" by auto
  have rest: "\<forall>i<length ps. get (page + 1 + i) = page_of (ps ! i)"
  proof (intro allI impI)
    fix i assume "i < length ps"
    then have "Suc i < length (b # ps)" by simp
    with Cons.prems(1) have "get (page + Suc i) = page_of ((b # ps) ! Suc i)" by blast
    then show "get (page + 1 + i) = page_of (ps ! i)" by simp
  qed
  have last: "get (page + 1 + length ps) = page_of []" using Cons.prems(2) by simp
  have dicts: "\<forall>b\<in>set ps. b \<noteq> [] \<and> list_all is_dict b" using Cons.prems(3) by simp
  note IH = Cons.IH [OF rest last dicts]
  show ?case
  proof (cases "int (length issues) < max_issues")
    case False
    then show ?thesis using assms(1)
      by (simp add: issues_loop_full py_slice_to_nonneg)
  next
    case True
    show ?thesis
    proof (cases "max_issues \<le> int (length (issues @ filter no_pull_request b))")
      case True
      then have "take (nat max_issues) ((issues @ filter no_pull_request b) @ concat (map (filter no_pull_request) ps))
        = take (nat max_issues) (issues @ filter no_pull_request b)"
        by (intro take_cap_append) simp
      then show ?thesis using \<open>int (length issues) < max_issues\<close> True assms(1) here b
        by (simp add: issues_loop_round issues_body_page py_slice_to_nonneg)
    next
      case False
      then show ?thesis using \<open>int (length issues) < max_issues\<close> assms(1) here b
          IH [of "issues @ filter no_pull_request b" "requested @ [page]"]
        by (simp add: issues_loop_round issues_body_page)
    qed
  qed
qed

lemma commits_loop_pages:
  assumes "0 < max_commits"
    and "\<forall>i<length ps. get (page + i) = page_of (ps ! i)"
    and "get (page + length ps) = page_of []"
    and "\<forall>b\<in>set ps. b \<noteq> []"
  shows "map_option fst (commits_loop get max_commits commits page requested) =
     Some (Inr (take (nat max_commits) (commits @ concat (until_short ps))))"
  using assms(2-4)
proof (induction ps arbitrary: commits page requested)
  case Nil
  then have last: "get page = page_of []" by simp
  show ?case
  proof (cases "int (length commits) < max_commits")
    case True
    then show ?thesis using assms(1) last
      by (simp add: commits_loop_round commits_body_page py_slice_to_nonneg)
  next
    case False
    then show ?thesis using assms(1)
      by (simp add: commits_loop_full py_slice_to_nonneg)
  qed
next
  case (Cons b ps)
  from Cons.prems(1) have here: "get page = page_of b" by auto
  from Cons.prems(3) have b: "b \<noteq> []" by auto
  have rest: "\<forall>i<length ps. get (page + 1 + i) = page_of (ps ! i)"
  proof (intro allI impI)
    fix i assume "i < length ps"
    then have "Suc i < length (b # ps)" by simp
    with Cons.prems(1) have "get (page + Suc i) = page_of ((b # ps) ! Suc i)" by blast
    then show "get (page + 1 + i) = page_of (ps ! i)" by simp
  qed
  have last: "get (page + 1 + length ps) = page_of []" using Cons.prems(2) by simp
  have nonempty: "\<forall>b\<in>set ps. b \<noteq> []" using Cons.prems(3) by simp
  note IH = Cons.IH [OF rest last nonempty]
  show ?case
  proof (cases "int (length commits) < max_commits")
    case False
    then show ?thesis using assms(1)
      by (simp add: commits_loop_full py_slice_to_nonneg)
  next
    case True
    show ?thesis
    proof (cases "int (length b) < per_page")
      case True
      then show ?thesis using \<open>int (length commits) < max_commits\<close> assms(1) here b
        by (simp add: commits_loop_round commits_body_page py_slice_to_nonneg)
    next
      case False
      then show ?thesis using \<open>int (length commits) < max_commits\<close> assms(1) here b
          IH [of "commits @ b" "requested @ [page]"]
        by (simp add: commits_loop_round commits_body_page)
    qed
  qed
qed



subsection \<open>A failing second page\<close>

text \<open>When the second page is requested and the request is answered with a status other
  than 200 and an error document, both functions return the items of page 1 (without the
  pull requests, for issues) as a normal result. When the body of that answer is no
  dictionary, the expression that the error branch prints raises, and the exception leaves
  the function.\<close>

lemma second_page_error_issues:
  assumes "issues_endpoint repo 1 = page_of first_page" and "list_all is_dict first_page"
    and "first_page \<noteq> []"
    and "int (length (filter no_pull_request first_page)) < cap"
    and "reports_error (issues_endpoint repo 2)"
  shows "fetch_issues issues_endpoint repo cap =
     Some (Inr (filter no_pull_request first_page), [1, 2])"
proof -
  let ?kept = "filter no_pull_request first_page"
  from assms(4) have pos: "0 < cap" by linarith
  from assms(5) have e2: "reports_error (issues_endpoint repo (Suc (Suc 0)))"
    by (simp add: numeral_2_eq_2)
  have second: "issues_loop (issues_endpoint repo) cap ?kept (Suc (Suc 0)) [Suc 0] =
      Some (Inr ?kept, [Suc 0, Suc (Suc 0)])"
    using assms(4) by (simp add: issues_loop_round issues_body_error e2 py_slice_to_nonneg)
  from pos assms(1-4) show ?thesis
    by (simp add: fetch_issues_def issues_loop_round [of "[]"] issues_body_page second
        numeral_2_eq_2)
qed

lemma second_page_error_commits:
  assumes "commits_endpoint repo 1 = page_of first_page"
    and "per_page \<le> int (length first_page)"
    and "int (length first_page) < cap"
    and "reports_error (commits_endpoint repo 2)"
  shows "fetch_commits commits_endpoint repo cap = Some (Inr first_page, [1, 2])"
proof -
  from assms(3) have pos: "0 < cap" by linarith
  from assms(2) have ne: "first_page \<noteq> []" by (auto simp: per_page_def)
  from assms(4) have e2: "reports_error (commits_endpoint repo (Suc (Suc 0)))"
    by (simp add: numeral_2_eq_2)
  have second: "commits_loop (commits_endpoint repo) cap first_page (Suc (Suc 0)) [Suc 0] =
      Some (Inr first_page, [Suc 0, Suc (Suc 0)])"
    using assms(3) by (simp add: commits_loop_round commits_body_error e2 py_slice_to_nonneg)
  from pos ne assms(1-3) show ?thesis
    by (simp add: fetch_commits_def commits_loop_round [of "[]"] commits_body_page second
        numeral_2_eq_2)
qed

lemma second_page_raises_issues:
  assumes "issues_endpoint repo 1 = page_of first_page" and "list_all is_dict first_page"
    and "first_page \<noteq> []"
    and "int (length (filter no_pull_request first_page)) < cap"
    and "status_code (issues_endpoint repo 2) \<noteq> 200"
    and "error_message (issues_endpoint repo 2) = Inl e"
  shows "fetch_issues issues_endpoint repo cap = Some (Inl e, [1, 2])"
proof -
  let ?kept = "filter no_pull_request first_page"
  from assms(4) have pos: "0 < cap" by linarith
  from assms(5,6) have e2: "issues_body (issues_endpoint repo (Suc (Suc 0))) cap ?kept = Raise e"
    by (simp add: numeral_2_eq_2 issues_body_def)
  have second: "issues_loop (issues_endpoint repo) cap ?kept (Suc (Suc 0)) [Suc 0] =
      Some (Inl e, [Suc 0, Suc (Suc 0)])"
    using assms(4) by (simp add: issues_loop_round e2)
  from pos assms(1-4) show ?thesis
    by (simp add: fetch_issues_def issues_loop_round [of "[]"] issues_body_page second
        numeral_2_eq_2)
qed

lemma second_page_raises_commits:
  assumes "commits_endpoint repo 1 = page_of first_page"
    and "per_page \<le> int (length first_page)"
    and "int (length first_page) < cap"
    and "status_code (commits_endpoint repo 2) \<noteq> 200"
    and "error_message (commits_endpoint repo 2) = Inl e"
  shows "fetch_commits commits_endpoint repo cap = Some (Inl e, [1, 2])"
proof -
  from assms(3) have pos: "0 < cap" by linarith
  from assms(2) have ne: "first_page \<noteq> []" by (auto simp: per_page_def)
  from assms(4,5) have e2: "commits_body (commits_endpoint repo (Suc (Suc 0))) first_page = Raise e"
    by (simp add: numeral_2_eq_2 commits_body_def)
  have second: "commits_loop (commits_endpoint repo) cap first_page (Suc (Suc 0)) [Suc 0] =
      Some (Inl e, [Suc 0, Suc (Suc 0)])"
    using assms(3) by (simp add: commits_loop_round e2)
  from pos ne assms(1-3) show ?thesis
    by (simp add: fetch_commits_def commits_loop_round [of "[]"] commits_body_page second
        numeral_2_eq_2)
qed

lemma partial_result_sample:
  "fetch_issues sample_failing ''numpy/numpy'' 100 =
     Some (Inr [JObj [(''number'', JInt 7)], JObj [(''number'', JInt 8)]], [1, 2])"
  using second_page_error_issues
    [of sample_failing "''numpy/numpy''" "[JObj [(''number'', JInt 7)], JObj [(''number'', JInt 8)]]"
        100]
  by (simp add: sample_failing_def reports_error_def no_pull_request_def)

text \<open>
  Claim C3, evaluated on the code. Page 1 succeeds and the request for page 2 is answered
  with status 502 and a body that is no JSON text, as a gateway does. The claim has both
  functions return the items of page 1 and raise nothing. \<^verbatim>\<open>fetch_issues\<close> (cap 100, two
  issues on page 1) and \<^verbatim>\<open>fetch_commits\<close> (cap 200, 100 commits on page 1) raise
  \<^verbatim>\<open>JSONDecodeError\<close> out of \<^verbatim>\<open>response.json()\<close> in the error branch, after both pages were
  requested; with a JSON list as body it is \<^verbatim>\<open>AttributeError\<close> out of \<^verbatim>\<open>.get\<close>.
\<close>

theorem failing_page_raises:
  "sample_gateway ''numpy/numpy'' 1 =
     page_of [JObj [(''number'', JInt 7)], JObj [(''number'', JInt 8)]] \<and>
   sample_gateway ''numpy/numpy'' 2 = \<lparr>status_code = 502, body = None\<rparr> \<and>
   fetch_issues sample_gateway ''numpy/numpy'' 100 = Some (Inl JSONDecodeError, [1, 2]) \<and>
   sample_gateway_full ''numpy/numpy'' 1 = page_of (replicate 100 (JObj [(''sha'', JStr ''f0'')])) \<and>
   sample_gateway_full ''numpy/numpy'' 2 = \<lparr>status_code = 502, body = None\<rparr> \<and>
   fetch_commits sample_gateway_full ''numpy/numpy'' 200 = Some (Inl JSONDecodeError, [1, 2]) \<and>
   sample_list_error ''numpy/numpy'' 2 =
     \<lparr>status_code = 503, body = Some (JArr [JStr ''unavailable''])\<rparr> \<and>
   fetch_issues sample_list_error ''numpy/numpy'' 100 = Some (Inl AttributeError, [1, 2])"
proof -
  have i: "fetch_issues sample_gateway ''numpy/numpy'' 100 = Some (Inl JSONDecodeError, [1, 2])"
    by (rule second_page_raises_issues
          [where first_page = "[JObj [(''number'', JInt 7)], JObj [(''number'', JInt 8)]]"])
      (simp_all add: sample_gateway_def no_pull_request_def error_message_def response_json_def)
  have c: "fetch_commits sample_gateway_full ''numpy/numpy'' 200 =
      Some (Inl JSONDecodeError, [1, 2])"
    by (rule second_page_raises_commits
          [where first_page = "replicate 100 (JObj [(''sha'', JStr ''f0'')])"])
      (simp_all add: sample_gateway_full_def per_page_def error_message_def response_json_def)
  have l: "fetch_issues sample_list_error ''numpy/numpy'' 100 = Some (Inl AttributeError, [1, 2])"
    by (rule second_page_raises_issues
          [where first_page = "[JObj [(''number'', JInt 7)], JObj [(''number'', JInt 8)]]"])
      (simp_all add: sample_list_error_def no_pull_request_def error_message_def response_json_def)
  from i c l show ?thesis
    by (simp add: sample_gateway_def sample_gateway_full_def sample_list_error_def)
qed

subsection \<open>Pages up to an empty page\<close>

lemma serves_nth:
  assumes "serves endpoint repo pages"
  shows "\<forall>i<length pages. endpoint repo (1 + i) = page_of (pages ! i)"
    and "endpoint repo (1 + length pages) = page_of []"
    and "\<forall>b\<in>set pages. b \<noteq> []"
proof -
  from assms have m: "map (endpoint repo) [1 ..< length pages + 1] = map page_of pages"
    and e: "endpoint repo (length pages + 1) = page_of []"
    and n: "list_all (\<lambda>batch. batch \<noteq> []) pages"
    by (simp_all add: serves_def)
  show "\<forall>i<length pages. endpoint repo (1 + i) = page_of (pages ! i)"
  proof (intro allI impI)
    fix i assume i: "i < length pages"
    then have "map (endpoint repo) [1 ..< length pages + 1] ! i = endpoint repo (1 + i)"
      by (simp del: upt_Suc)
    moreover have "map page_of pages ! i = page_of (pages ! i)" using i by simp
    ultimately show "endpoint repo (1 + i) = page_of (pages ! i)" using m by simp
  qed
  show "endpoint repo (1 + length pages) = page_of []" using e by (simp add: add.commute)
  show "\<forall>b\<in>set pages. b \<noteq> []" using n by (simp add: list_all_iff)
qed

text \<open>
  Claim C6 as stated has both functions return the concatenation of all pages before the
  empty one. For pages of two, one and no items \<^verbatim>\<open>fetch_commits\<close> returns page 1 only: the
  first page is shorter than \<^verbatim>\<open>per_page\<close>, which ends its loop.
\<close>

theorem commits_stop_at_short_page_counterexample:
  "serves sample_commits ''numpy/numpy''
     [[JObj [(''sha'', JStr ''a1'')], JObj [(''sha'', JStr ''b2'')]], [JObj [(''sha'', JStr ''c3'')]]] \<and>
   fetch_commits sample_commits ''numpy/numpy'' 100 =
     Some (Inr [JObj [(''sha'', JStr ''a1'')], JObj [(''sha'', JStr ''b2'')]], [1]) \<and>
   take 100 (concat [[JObj [(''sha'', JStr ''a1'')], JObj [(''sha'', JStr ''b2'')]],
                     [JObj [(''sha'', JStr ''c3'')]]]) \<noteq>
     [JObj [(''sha'', JStr ''a1'')], JObj [(''sha'', JStr ''b2'')]]"
  by (simp add: serves_def sample_commits_def upt_rec fetch_commits_def commits_loop.simps
      commits_body_def page_of_def response_json_def batch_empty_def py_slice_to_def per_page_def)

text \<open>
  Claim C6, amended. For every source that serves non-empty successful pages followed by
  an empty page (pages of strictly decreasing size among them), both functions return.
  \<^verbatim>\<open>fetch_issues\<close> returns the concatenation, in page order, of the items of all these pages
  that are not pull requests, cut to the cap. \<^verbatim>\<open>fetch_commits\<close> returns the concatenation,
  in page order, of the pages up to and including the first one shorter than \<^verbatim>\<open>per_page\<close>,
  cut to the cap.
\<close>

theorem pagination_concatenates:
  "(serves issues_endpoint repo pages \<and> list_all (list_all is_dict) pages \<longrightarrow>
      map_option fst (fetch_issues issues_endpoint repo cap) =
        Some (Inr (take (nat cap) (concat (map (filter no_pull_request) pages))))) \<and>
   (serves commits_endpoint repo pages \<longrightarrow>
      map_option fst (fetch_commits commits_endpoint repo cap) =
        Some (Inr (take (nat cap) (concat (until_short pages)))))"
proof (intro conjI impI)
  assume a: "serves issues_endpoint repo pages \<and> list_all (list_all is_dict) pages"
  show "map_option fst (fetch_issues issues_endpoint repo cap) =
        Some (Inr (take (nat cap) (concat (map (filter no_pull_request) pages))))"
  proof (cases "0 < cap")
    case False
    then show ?thesis
      by (simp add: fetch_issues_def issues_loop_full py_slice_to_Nil)
  next
    case True
    from a have "\<forall>b\<in>set pages. b \<noteq> [] \<and> list_all is_dict b"
      using serves_nth(3) [of issues_endpoint repo pages] by (simp add: list_all_iff)
    with issues_loop_pages [OF True, of pages "issues_endpoint repo" 1 "[]" "[]"]
      serves_nth(1,2) [of issues_endpoint repo pages] a
    show ?thesis by (simp add: fetch_issues_def)
  qed
next
  assume a: "serves commits_endpoint repo pages"
  show "map_option fst (fetch_commits commits_endpoint repo cap) =
        Some (Inr (take (nat cap) (concat (until_short pages))))"
  proof (cases "0 < cap")
    case False
    then show ?thesis
      by (simp add: fetch_commits_def commits_loop_full py_slice_to_Nil)
  next
    case True
    with commits_loop_pages [OF True, of pages "commits_endpoint repo" 1 "[]" "[]"]
      serves_nth [of commits_endpoint repo pages] a
    show ?thesis by (simp add: fetch_commits_def)
  qed
qed

theorem pagination_concatenates_witness:
  "serves sample_issues ''numpy/numpy''
     [[JObj [(''number'', JInt 1), (''pull_request'', JObj [])],
       JObj [(''number'', JInt 2)],
       JObj [(''number'', JInt 3), (''pull_request'', JObj [])]],
      [JObj [(''number'', JInt 4)], JObj [(''number'', JInt 5)]]] \<and>
   map_option fst (fetch_issues sample_issues ''numpy/numpy'' 100) =
     Some (Inr [JObj [(''number'', JInt 2)], JObj [(''number'', JInt 4)], JObj [(''number'', JInt 5)]]) \<and>
   map_option fst (fetch_commits sample_issues ''numpy/numpy'' 100) =
     Some (Inr [JObj [(''number'', JInt 1), (''pull_request'', JObj [])],
       JObj [(''number'', JInt 2)],
       JObj [(''number'', JInt 3), (''pull_request'', JObj [])]])"
proof -
  have s: "serves sample_issues ''numpy/numpy''
     [[JObj [(''number'', JInt 1), (''pull_request'', JObj [])],
       JObj [(''number'', JInt 2)],
       JObj [(''number'', JInt 3), (''pull_request'', JObj [])]],
      [JObj [(''number'', JInt 4)], JObj [(''number'', JInt 5)]]]"
    by (simp add: serves_def sample_issues_def upt_rec)
  from s pagination_concatenates
    [of sample_issues "''numpy/numpy''"
      "[[JObj [(''number'', JInt 1), (''pull_request'', JObj [])],
       JObj [(''number'', JInt 2)],
       JObj [(''number'', JInt 3), (''pull_request'', JObj [])]],
      [JObj [(''number'', JInt 4)], JObj [(''number'', JInt 5)]]]" 100 sample_issues]
  show ?thesis
    by (simp add: no_pull_request_def per_page_def)
qed


subsection \<open>The two ways to end a pagination\<close>




text \<open>An error response whose body is no JSON text makes the error branch raise: the
  expression printed there decodes the body.\<close>

lemma undecodable_error_raises:
  "status_code response \<noteq> 200 \<Longrightarrow> body response = None \<Longrightarrow>
   issues_body response max_issues issues = Raise JSONDecodeError \<and>
   commits_body response commits = Raise JSONDecodeError"
  by (simp add: issues_body_def commits_body_def error_message_def response_json_def)

subsection \<open>\<^verbatim>\<open>main\<close>\<close>

lemma collect_step:
  assumes "collect env (repo # rest) st = Some (None, st')"
  shows "\<exists>doc. repo_doc env repo = Some doc \<and>
     ((rate_below env (checks st) 50 = Inr True \<and> st' = after_repo env repo doc st) \<or>
      (rate_below env (checks st) 50 = Inr False \<and>
       collect env rest (after_repo env repo doc st) = Some (None, st')))"
  using assms
  by (auto simp: repo_doc_def rate_below_def after_repo_def repo_file_def save_data_def Let_def
      split: sum.splits option.splits prod.splits bool.splits)

lemma collect_step_returns:
  assumes "repo_doc env repo = Some doc"
  shows "collect env (repo # rest) st =
     (case rate_below env (checks st) 50 of
        Inl e \<Rightarrow> Some (Some e, after_repo env repo doc st)
      | Inr True \<Rightarrow> Some (None, after_repo env repo doc st)
      | Inr False \<Rightarrow> collect env rest (after_repo env repo doc st))"
  using assms
  by (auto simp: repo_doc_def rate_below_def after_repo_def repo_file_def save_data_def Let_def
      split: sum.splits option.splits prod.splits bool.splits)

lemma update_fresh: "k \<notin> set (map fst al) \<Longrightarrow> AList.update k v al = al @ [(k, v)]"
  by (induction al) auto

lemma after_repo_simps:
  "checks (after_repo env repo doc st) = checks st + 1"
  "written (after_repo env repo doc st) = written st @ [(repo_file env repo, doc)]"
  "all_data (after_repo env repo doc st) = AList.update repo doc (all_data st)"
  by (simp_all add: after_repo_def)

lemma collect_shape:
  assumes "collect env repos st = Some (None, st')"
    and "distinct repos" and "set repos \<inter> set (map fst (all_data st)) = {}"
  shows "\<exists>k snaps. k \<le> length repos \<and> (repos \<noteq> [] \<longrightarrow> 1 \<le> k) \<and>
      map fst snaps = take k repos \<and>
      list_all (\<lambda>(repo, doc). repo_doc env repo = Some doc) snaps \<and>
      all_data st' = all_data st @ snaps \<and>
      written st' = written st @ map (\<lambda>(repo, doc). (repo_file env repo, doc)) snaps \<and>
      (\<forall>i. i + 1 < k \<longrightarrow> rate_below env (checks st + i) 50 = Inr False) \<and>
      (k < length repos \<longrightarrow> rate_below env (checks st + (k - 1)) 50 = Inr True)"
  using assms
proof (induction repos arbitrary: st)
  case Nil
  then have "st' = st" by simp
  then have "0 \<le> length ([]::string list) \<and> (([]::string list) \<noteq> [] \<longrightarrow> 1 \<le> (0::nat)) \<and>
      map fst ([]::(string \<times> json) list) = take 0 [] \<and>
      list_all (\<lambda>(repo, doc). repo_doc env repo = Some doc) [] \<and>
      all_data st' = all_data st @ [] \<and>
      written st' = written st @ map (\<lambda>(repo, doc). (repo_file env repo, doc)) [] \<and>
      (\<forall>i. i + 1 < (0::nat) \<longrightarrow> rate_below env (checks st + i) 50 = Inr False) \<and>
      ((0::nat) < length ([]::string list) \<longrightarrow> rate_below env (checks st + (0 - 1)) 50 = Inr True)"
    by simp
  then show ?case by blast
next
  case (Cons repo rest)
  from Cons.prems(3) have fresh: "repo \<notin> set (map fst (all_data st))" by auto
  from collect_step [OF Cons.prems(1)] obtain doc where doc: "repo_doc env repo = Some doc"
    and alt: "(rate_below env (checks st) 50 = Inr True \<and> st' = after_repo env repo doc st) \<or>
      (rate_below env (checks st) 50 = Inr False \<and>
       collect env rest (after_repo env repo doc st) = Some (None, st'))"
    by blast
  let ?st1 = "after_repo env repo doc st"
  have data1: "all_data ?st1 = all_data st @ [(repo, doc)]"
    using fresh by (simp add: after_repo_simps update_fresh)
  from alt show ?case
  proof
    assume a: "rate_below env (checks st) 50 = Inr True \<and> st' = ?st1"
    have "(1::nat) \<le> length (repo # rest) \<and> (repo # rest \<noteq> [] \<longrightarrow> 1 \<le> (1::nat)) \<and>
      map fst [(repo, doc)] = take 1 (repo # rest) \<and>
      list_all (\<lambda>(repo, doc). repo_doc env repo = Some doc) [(repo, doc)] \<and>
      all_data st' = all_data st @ [(repo, doc)] \<and>
      written st' = written st @ map (\<lambda>(repo, doc). (repo_file env repo, doc)) [(repo, doc)] \<and>
      (\<forall>i. i + 1 < (1::nat) \<longrightarrow> rate_below env (checks st + i) 50 = Inr False) \<and>
      ((1::nat) < length (repo # rest) \<longrightarrow> rate_below env (checks st + (1 - 1)) 50 = Inr True)"
      using a doc data1 by (simp add: after_repo_simps)
    then show ?thesis by blast
  next
    assume b: "rate_below env (checks st) 50 = Inr False \<and>
       collect env rest ?st1 = Some (None, st')"
    have d: "distinct rest" using Cons.prems(2) by simp
    have f: "set rest \<inter> set (map fst (all_data ?st1)) = {}"
      using Cons.prems(2,3) by (auto simp: data1)
    from Cons.IH [OF conjunct2 [OF b] d f] obtain k snaps where
      k: "k \<le> length rest" "rest \<noteq> [] \<longrightarrow> 1 \<le> k" and
      keys: "map fst snaps = take k rest" and
      docs: "list_all (\<lambda>(repo, doc). repo_doc env repo = Some doc) snaps" and
      ad: "all_data st' = all_data ?st1 @ snaps" and
      wr: "written st' = written ?st1 @ map (\<lambda>(repo, doc). (repo_file env repo, doc)) snaps" and
      high: "\<forall>i. i + 1 < k \<longrightarrow> rate_below env (checks ?st1 + i) 50 = Inr False" and
      low: "k < length rest \<longrightarrow> rate_below env (checks ?st1 + (k - 1)) 50 = Inr True"
      by blast
    have high': "\<forall>i. i + 1 < Suc k \<longrightarrow> rate_below env (checks st + i) 50 = Inr False"
    proof (intro allI impI)
      fix i assume i: "i + 1 < Suc k"
      show "rate_below env (checks st + i) 50 = Inr False"
      proof (cases i)
        case 0
        then show ?thesis using b by simp
      next
        case (Suc j)
        with i have "j + 1 < k" by simp
        with high have "rate_below env (checks ?st1 + j) 50 = Inr False" by blast
        then show ?thesis using Suc by (simp add: after_repo_simps)
      qed
    qed
    have low': "Suc k < length (repo # rest) \<longrightarrow> rate_below env (checks st + (Suc k - 1)) 50 = Inr True"
    proof
      assume "Suc k < length (repo # rest)"
      then have lt: "k < length rest" by simp
      then have "1 \<le> k" using k(2) by auto
      then have "checks ?st1 + (k - 1) = checks st + (Suc k - 1)" by (simp add: after_repo_simps)
      with low lt show "rate_below env (checks st + (Suc k - 1)) 50 = Inr True" by simp
    qed
    have "Suc k \<le> length (repo # rest) \<and> (repo # rest \<noteq> [] \<longrightarrow> 1 \<le> Suc k) \<and>
      map fst ((repo, doc) # snaps) = take (Suc k) (repo # rest) \<and>
      list_all (\<lambda>(repo, doc). repo_doc env repo = Some doc) ((repo, doc) # snaps) \<and>
      all_data st' = all_data st @ ((repo, doc) # snaps) \<and>
      written st' = written st @ map (\<lambda>(repo, doc). (repo_file env repo, doc)) ((repo, doc) # snaps) \<and>
      (\<forall>i. i + 1 < Suc k \<longrightarrow> rate_below env (checks st + i) 50 = Inr False) \<and>
      (Suc k < length (repo # rest) \<longrightarrow> rate_below env (checks st + (Suc k - 1)) 50 = Inr True)"
      using k keys docs ad wr doc data1 high' low' by (simp add: after_repo_simps)
    then show ?thesis by blast
  qed
qed

lemma collect_returns:
  assumes "list_all (\<lambda>repo. case repo_doc env repo of None \<Rightarrow> False | Some doc \<Rightarrow> True) repos"
    and "list_all (\<lambda>k. case rate_below env k 50 of Inl e \<Rightarrow> False | Inr low \<Rightarrow> True)
           [checks st ..< checks st + length repos]"
  shows "\<exists>st'. collect env repos st = Some (None, st')"
  using assms
proof (induction repos arbitrary: st)
  case Nil
  then show ?case by simp
next
  case (Cons repo rest)
  from Cons.prems(1) obtain doc where doc: "repo_doc env repo = Some doc"
    by (auto split: option.splits)
  have range: "[checks st ..< checks st + length (repo # rest)] =
      checks st # [checks st + 1 ..< checks st + 1 + length rest]"
    by (simp add: upt_rec)
  from Cons.prems(2) obtain low where low: "rate_below env (checks st) 50 = Inr low"
    unfolding range by (auto split: sum.splits)
  let ?st1 = "after_repo env repo doc st"
  have "list_all (\<lambda>k. case rate_below env k 50 of Inl e \<Rightarrow> False | Inr low \<Rightarrow> True)
           [checks ?st1 ..< checks ?st1 + length rest]"
    using Cons.prems(2) unfolding range by (simp add: after_repo_simps)
  with Cons.IH [of ?st1] Cons.prems(1) obtain st' where
    "collect env rest ?st1 = Some (None, st')" by auto
  then show ?case
    using low by (cases low) (simp_all add: collect_step_returns [OF doc] del: collect.simps)
qed

lemma repo_file_not_combined:
  "repo \<in> set REPOSITORIES \<Longrightarrow> repo_file env repo \<noteq> all_repos_file env"
  by (auto simp: REPOSITORIES_def repo_file_def all_repos_file_def repo_name_def)

lemma collector_main_shape:
  assumes pre: "rate_below env 0 100 = Inr False"
    and run: "collector_main env = Some (None, fs)"
  shows "\<exists>k snaps. 1 \<le> k \<and> k \<le> length REPOSITORIES \<and>
        map fst snaps = take k REPOSITORIES \<and>
        list_all (\<lambda>(repo, doc). repo_doc env repo = Some doc) snaps \<and>
        fs = map (\<lambda>(repo, doc). (repo_file env repo, doc)) snaps @
               [(all_repos_file env, JObj snaps)] \<and>
        count_list (map fst fs) (all_repos_file env) = 1 \<and>
        (\<forall>j. 1 \<le> j \<and> j < k \<longrightarrow> rate_below env j 50 = Inr False) \<and>
        (k < length REPOSITORIES \<longrightarrow> rate_below env k 50 = Inr True)"
proof -
  let ?st0 = "\<lparr>all_data = [], written = [], checks = 1\<rparr>"
  from pre run obtain st' where c: "collect env REPOSITORIES ?st0 = Some (None, st')"
    and fs: "fs = written st' @ [(all_repos_file env, JObj (all_data st'))]"
    unfolding collector_main_def rate_below_def all_repos_file_def save_data_def
    by (auto split: sum.splits option.splits prod.splits bool.splits)
  have d: "distinct REPOSITORIES" by (simp add: REPOSITORIES_def)
  have ne: "REPOSITORIES \<noteq> []" by (simp add: REPOSITORIES_def)
  from collect_shape [OF c d] ne obtain k snaps where
    k: "k \<le> length REPOSITORIES" "1 \<le> k" and
    keys: "map fst snaps = take k REPOSITORIES" and
    docs: "list_all (\<lambda>(repo, doc). repo_doc env repo = Some doc) snaps" and
    ad: "all_data st' = snaps" and
    wr: "written st' = map (\<lambda>(repo, doc). (repo_file env repo, doc)) snaps" and
    high: "\<forall>i. i + 1 < k \<longrightarrow> rate_below env (1 + i) 50 = Inr False" and
    low: "k < length REPOSITORIES \<longrightarrow> rate_below env (1 + (k - 1)) 50 = Inr True"
    by auto
  have names: "map fst (map (\<lambda>(repo, doc). (repo_file env repo, doc)) snaps) =
      map (repo_file env) (map fst snaps)"
    by (induction snaps) auto
  have "all_repos_file env \<notin> set (map (repo_file env) (take k REPOSITORIES))"
  proof
    assume "all_repos_file env \<in> set (map (repo_file env) (take k REPOSITORIES))"
    then obtain x where x: "x \<in> set (take k REPOSITORIES)"
      and eq: "all_repos_file env = repo_file env x" by auto
    from x have "x \<in> set REPOSITORIES" by (rule in_set_takeD)
    from repo_file_not_combined [OF this, of env] eq show False by simp
  qed
  moreover have "map fst (written st') = map (repo_file env) (take k REPOSITORIES)"
    unfolding wr names keys ..
  ultimately have "count_list (map fst (written st')) (all_repos_file env) = 0"
    by (simp only: count_list_0_iff not_False_eq_True)
  then have once: "count_list (map fst fs) (all_repos_file env) = 1"
    by (simp add: fs)
  have high': "\<forall>j. 1 \<le> j \<and> j < k \<longrightarrow> rate_below env j 50 = Inr False"
  proof (intro allI impI)
    fix j assume j: "1 \<le> j \<and> j < k"
    then have "(j - 1) + 1 < k" by simp
    with high have "rate_below env (1 + (j - 1)) 50 = Inr False" by blast
    with j show "rate_below env j 50 = Inr False" by simp
  qed
  have low': "k < length REPOSITORIES \<longrightarrow> rate_below env k 50 = Inr True"
    using low k(2) by simp
  from k keys docs once high' low' show ?thesis
    unfolding fs ad wr by blast
qed

lemma collector_main_returns:
  assumes pre: "rate_below env 0 100 = Inr False"
    and ok: "run_unhindered env"
  shows "\<exists>fs. collector_main env = Some (None, fs)"
proof -
  let ?st0 = "\<lparr>all_data = [], written = [], checks = 1\<rparr>"
  from ok have "\<exists>st'. collect env REPOSITORIES ?st0 = Some (None, st')"
    unfolding run_unhindered_def by (intro collect_returns) (simp_all add: add.commute)
  then obtain st' where "collect env REPOSITORIES ?st0 = Some (None, st')" by blast
  with pre show ?thesis
    unfolding collector_main_def rate_below_def
    by (auto split: sum.splits bool.splits)
qed

text \<open>
  Claim C5. If the pre-flight check reports less than 100 remaining, \<^verbatim>\<open>main\<close> returns with
  no file written. Otherwise, a run that comes to its end has written the snapshots of
  the first \<open>k\<close> repositories of the list, one file each, in list order, and after them,
  exactly once, the combined file, which holds exactly these \<open>k\<close> repositories with the same
  snapshots, in list order. Here \<open>k\<close> is at least 1; the checks after the repositories
  before the \<open>k\<close>-th did not report less than 50, and either all repositories were processed
  or the check after the \<open>k\<close>-th reported less than 50. The run does come to its end whenever
  all fetches return and all checks give a comparable value.
\<close>

theorem collector_main_outputs:
  "(rate_below env 0 100 = Inr True \<longrightarrow> collector_main env = Some (None, [])) \<and>
   (rate_below env 0 100 = Inr False \<and> collector_main env = Some (None, fs) \<longrightarrow>
      (\<exists>k snaps. 1 \<le> k \<and> k \<le> length REPOSITORIES \<and>
        map fst snaps = take k REPOSITORIES \<and>
        list_all (\<lambda>(repo, doc). repo_doc env repo = Some doc) snaps \<and>
        fs = map (\<lambda>(repo, doc). (repo_file env repo, doc)) snaps @
               [(all_repos_file env, JObj snaps)] \<and>
        count_list (map fst fs) (all_repos_file env) = 1 \<and>
        (\<forall>j. 1 \<le> j \<and> j < k \<longrightarrow> rate_below env j 50 = Inr False) \<and>
        (k < length REPOSITORIES \<longrightarrow> rate_below env k 50 = Inr True))) \<and>
   (rate_below env 0 100 = Inr False \<and> run_unhindered env \<longrightarrow>
      (\<exists>fs. collector_main env = Some (None, fs)))"
proof (intro conjI impI)
  assume "rate_below env 0 100 = Inr True"
  then show "collector_main env = Some (None, [])"
    unfolding collector_main_def rate_below_def by (auto split: sum.splits)
next
  assume "rate_below env 0 100 = Inr False \<and> collector_main env = Some (None, fs)"
  then show "\<exists>k snaps. 1 \<le> k \<and> k \<le> length REPOSITORIES \<and>
        map fst snaps = take k REPOSITORIES \<and>
        list_all (\<lambda>(repo, doc). repo_doc env repo = Some doc) snaps \<and>
        fs = map (\<lambda>(repo, doc). (repo_file env repo, doc)) snaps @
               [(all_repos_file env, JObj snaps)] \<and>
        count_list (map fst fs) (all_repos_file env) = 1 \<and>
        (\<forall>j. 1 \<le> j \<and> j < k \<longrightarrow> rate_below env j 50 = Inr False) \<and>
        (k < length REPOSITORIES \<longrightarrow> rate_below env k 50 = Inr True)"
    using collector_main_shape by blast
next
  assume "rate_below env 0 100 = Inr False \<and> run_unhindered env"
  then show "\<exists>fs. collector_main env = Some (None, fs)"
    using collector_main_returns by blast
qed

lemma sample_fetches:
  "fetch_issues sample_issues repo 100 =
     Some (Inr [JObj [(''number'', JInt 2)], JObj [(''number'', JInt 4)],
                JObj [(''number'', JInt 5)]], [1, 2, 3])"
  "fetch_commits sample_commits repo 100 =
     Some (Inr [JObj [(''sha'', JStr ''a1'')], JObj [(''sha'', JStr ''b2'')]], [1])"
  by (simp_all add: fetch_issues_def fetch_commits_def issues_loop.simps commits_loop.simps
      issues_body_def commits_body_def sample_issues_def sample_commits_def page_of_def
      response_json_def batch_empty_def actual_issues_def py_slice_to_def per_page_def)

lemma sample_rate:
  "check_rate_limit (\<lambda>t. None) (rate_limit_response remaining limit reset) =
     Inr (JInt (int remaining))"
  by (simp add: check_rate_limit_def rate_limit_response_def response_json_def)

lemma sample_repo_doc: "repo_doc (sample_env low) repo = Some (sample_doc repo)"
  by (simp add: repo_doc_def sample_env_def sample_fetches fetch_repo_info_def response_json_def
      snapshot_def sample_doc_def)

theorem collector_main_outputs_witness:
  "rate_below ((sample_env 2)\<lparr>get_rate_limit := \<lambda>k. rate_limit_response 99 5000 1762214400\<rparr>) 0 100 = Inr True \<and>
   collector_main ((sample_env 2)\<lparr>get_rate_limit := \<lambda>k. rate_limit_response 99 5000 1762214400\<rparr>) =
     Some (None, []) \<and>
   rate_below (sample_env 2) 0 100 = Inr False \<and>
   run_unhindered (sample_env 2) \<and>
   collector_main (sample_env 2) =
     Some (None,
       [(''data/raw/pandas-dev_pandas_20261103_120000.json'', sample_doc ''pandas-dev/pandas''),
        (''data/raw/numpy_numpy_20261103_120000.json'', sample_doc ''numpy/numpy''),
        (''data/raw/all_repos_20261103_120000.json'',
          JObj [(''pandas-dev/pandas'', sample_doc ''pandas-dev/pandas''),
                (''numpy/numpy'', sample_doc ''numpy/numpy'')])]) \<and>
   map_option (map_prod id (map fst)) (collector_main (sample_env 9)) =
     Some (None,
       [''data/raw/pandas-dev_pandas_20261103_120000.json'',
        ''data/raw/numpy_numpy_20261103_120000.json'',
        ''data/raw/scikit-learn_scikit-learn_20261103_120000.json'',
        ''data/raw/apache_airflow_20261103_120000.json'',
        ''data/raw/mlflow_mlflow_20261103_120000.json'',
        ''data/raw/all_repos_20261103_120000.json''])"
proof -
  let ?low = "(sample_env 2)\<lparr>get_rate_limit := \<lambda>k. rate_limit_response 99 5000 1762214400\<rparr>"
  have pre_low: "rate_below ?low 0 100 = Inr True"
    by (simp add: rate_below_def sample_env_def sample_rate)
  have pre: "rate_below (sample_env 2) 0 100 = Inr False"
    by (simp add: rate_below_def sample_env_def sample_rate)
  have docs: "list_all (\<lambda>repo. case repo_doc (sample_env 2) repo of None \<Rightarrow> False | Some doc \<Rightarrow> True)
      REPOSITORIES"
    by (simp add: sample_repo_doc REPOSITORIES_def)
  have rates: "list_all (\<lambda>k. case rate_below (sample_env 2) k 50 of Inl e \<Rightarrow> False | Inr low \<Rightarrow> True)
      [1 ..< length REPOSITORIES + 1]"
    by (simp add: REPOSITORIES_def upt_rec rate_below_def sample_env_def sample_rate)
  have ok: "run_unhindered (sample_env 2)"
    using docs rates by (simp add: run_unhindered_def)
  have run: "collector_main (sample_env 2) =
     Some (None,
       [(''data/raw/pandas-dev_pandas_20261103_120000.json'', sample_doc ''pandas-dev/pandas''),
        (''data/raw/numpy_numpy_20261103_120000.json'', sample_doc ''numpy/numpy''),
        (''data/raw/all_repos_20261103_120000.json'',
          JObj [(''pandas-dev/pandas'', sample_doc ''pandas-dev/pandas''),
                (''numpy/numpy'', sample_doc ''numpy/numpy'')])])"
    by (simp add: collector_main_def REPOSITORIES_def sample_env_def sample_rate sample_fetches
        fetch_repo_info_def response_json_def snapshot_def sample_doc_def save_data_def
        repo_name_def Let_def)
  from collector_main_outputs [of ?low] pre_low
  have "collector_main ?low = Some (None, [])" by blast
  moreover from collector_main_outputs [of "sample_env 2"] pre ok
  have "\<exists>fs. collector_main (sample_env 2) = Some (None, fs)" by blast
  moreover have "map_option (map_prod id (map fst)) (collector_main (sample_env 9)) =
     Some (None,
       [''data/raw/pandas-dev_pandas_20261103_120000.json'',
        ''data/raw/numpy_numpy_20261103_120000.json'',
        ''data/raw/scikit-learn_scikit-learn_20261103_120000.json'',
        ''data/raw/apache_airflow_20261103_120000.json'',
        ''data/raw/mlflow_mlflow_20261103_120000.json'',
        ''data/raw/all_repos_20261103_120000.json''])"
    by (simp add: collector_main_def REPOSITORIES_def sample_env_def sample_rate sample_fetches
        fetch_repo_info_def response_json_def save_data_def repo_name_def Let_def)
  ultimately show ?thesis using pre_low pre ok run by simp
qed



section \<open>Properties of the written file\<close>

text \<open>A document whose characters are all below 256 is always written: the file system of
  the sections above, which holds such documents, loses no failure of the encoding.\<close>

lemma utf8_encode_small:
  "\<forall>c\<in>set cs. c < 256 \<Longrightarrow> \<exists>bytes. utf8_encode cs = Inr bytes"
proof (induction cs)
  case Nil
  then show ?case by simp
next
  case (Cons c cs)
  then obtain rest where "utf8_encode cs = Inr rest" by auto
  moreover from Cons.prems have "c < 256" by simp
  then have "\<exists>bytes. utf8_char c = Inr bytes" by (simp add: utf8_char_def)
  ultimately show ?case by auto
qed

lemma str_small: "\<forall>c\<in>set (str s). c < 256"
  by (simp add: str_def)

lemma digits_small: "\<forall>c\<in>set (digits n). c < 256"
proof (induction n rule: digits.induct)
  case (1 n)
  then show ?case by (subst digits.simps) (auto simp: less_imp_diff_less)
qed

lemma escape_char_small: "c < 256 \<Longrightarrow> \<forall>x\<in>set (escape_char c). x < 256"
  by (auto simp: escape_char_def hex_digit_def)

lemma encode_basestring_small: "\<forall>x\<in>set (encode_basestring (str s)). x < 256"
  using str_small [of s] escape_char_small
  by (auto simp: encode_basestring_def)

lemma join_small:
  "\<forall>c\<in>set separator. c < 256 \<Longrightarrow> \<forall>chunk\<in>set chunks. \<forall>c\<in>set chunk. c < 256 \<Longrightarrow>
   \<forall>c\<in>set (join separator chunks). c < (256::nat)"
  by (induction separator chunks rule: join.induct) auto

lemma newline_indent_small: "\<forall>c\<in>set (newline_indent level). c < 256"
  by (auto simp: newline_indent_def)

lemma iterencode_small:
  "\<forall>c\<in>set (iterencode float_repr level (value_of data)). c < 256"
proof (induction data arbitrary: level)
  case JNull
  show ?case using str_small by simp
next
  case (JBool b)
  show ?case using str_small by simp
next
  case (JInt i)
  show ?case using digits_small by (auto simp: int_repr_def)
next
  case (JFloat f)
  show ?case using str_small by (cases f) (simp_all add: floatstr_def)
next
  case (JStr s)
  show ?case using encode_basestring_small by simp
next
  case (JArr xs)
  have "\<forall>chunk\<in>set (map (iterencode float_repr (level + 1)) (map value_of xs)).
          \<forall>c\<in>set chunk. c < 256"
    using JArr by auto
  from join_small [OF _ this, of "44 # newline_indent (level + 1)"]
    newline_indent_small str_small
  show ?case by auto
next
  case (JObj kvs)
  have "\<forall>chunk\<in>set (map (\<lambda>item. encode_basestring (fst item) @ [58, 32] @
                          iterencode float_repr (level + 1) (snd item))
                    (map (\<lambda>kv. (str (fst kv), value_of (snd kv))) kvs)).
          \<forall>c\<in>set chunk. c < 256"
  proof (intro ballI)
    fix chunk c
    assume "chunk \<in> set (map (\<lambda>item. encode_basestring (fst item) @ [58, 32] @
                          iterencode float_repr (level + 1) (snd item))
                    (map (\<lambda>kv. (str (fst kv), value_of (snd kv))) kvs))"
      and c: "c \<in> set chunk"
    then obtain kv where kv: "kv \<in> set kvs"
      and chunk: "chunk = encode_basestring (str (fst kv)) @ [58, 32] @
                          iterencode float_repr (level + 1) (value_of (snd kv))"
      by auto
    have "snd kv \<in> Basic_BNFs.snds kv" by (cases kv) simp
    from JObj [OF kv this, of "level + 1"] encode_basestring_small [of "fst kv"] c
    show "c < 256" by (auto simp: chunk)
  qed
  from join_small [OF _ this, of "44 # newline_indent (level + 1)"]
    newline_indent_small str_small
  show ?case by auto
qed

lemma save_data_bytes_returns:
  "\<exists>fs'. save_data_bytes float_repr (value_of data) filename fs = Inr fs'"
proof -
  from utf8_encode_small [OF iterencode_small [of float_repr 0 data]]
  obtain bytes where "write_json float_repr (value_of data) = Inr bytes"
    by (auto simp: write_json_def)
  then show ?thesis by (simp add: save_data_bytes_def)
qed

text \<open>
  Claim C8, evaluated on the code. The claim has every snapshot built from mappings,
  sequences, strings, numbers, booleans and null read back, after \<^verbatim>\<open>save_data\<close>, as the value
  written. For the snapshot whose issue title is a lone surrogate, \<^verbatim>\<open>save_data\<close> raises
  \<^verbatim>\<open>UnicodeEncodeError\<close> while it writes: with \<^verbatim>\<open>ensure_ascii=False\<close> the code point goes into
  the text as it is, and UTF-8 has no encoding for it. No file is there to read back.
\<close>

theorem save_data_surrogate_raises:
  "save_data_bytes (\<lambda>q. ''0.0'') surrogate_snapshot ''numpy_numpy_20261103_120000.json'' [] =
     Inl UnicodeEncodeError"
  by (simp add: save_data_bytes_def write_json_def surrogate_snapshot_def str_def
      encode_basestring_def escape_char_def newline_indent_def int_repr_def digits.simps
      utf8_char_def numeral_2_eq_2 numeral_3_eq_3)


end
